theory Spec2Isabelle
  imports Main "HOL-Library.Sublist" "HOL-Library.AList"
begin

section \<open>Python values\<close>

text \<open>
  The viewer (\<^verbatim>\<open>src/mdv/markdownviewer.py\<close>) is Python 2 code: its docstring says so, and
  it indexes \<^verbatim>\<open>admons.values()\<close>. A Python 2 \<^verbatim>\<open>str\<close> is a byte string, so a string is
  a \<^typ>\<open>string\<close> here, \<^verbatim>\<open>len\<close> counts bytes, and the glyphs of the configuration
  block are their UTF-8 bytes. Whitespace is the six ASCII whitespace bytes.
  Every exception the modelled code can raise is a value of \<open>error\<close>.
\<close>

datatype error = KeyError | IndexError | ValueError | TypeError

definition digit_char :: "nat \<Rightarrow> char" where
  "digit_char d = ''0123456789'' ! d"

fun str_nat :: "nat \<Rightarrow> string" where
  "str_nat n = (if n < 10 then [digit_char n] else str_nat (n div 10) @ [digit_char (n mod 10)])"

declare str_nat.simps [simp del]

definition str_int :: "int \<Rightarrow> string" where
  \<comment> \<open>\<^verbatim>\<open>'%s' % c\<close> for an integer \<^verbatim>\<open>c\<close>\<close>
  "str_int i = (if i < 0 then CHR ''-'' # str_nat (nat (- i)) else str_nat (nat i))"

text \<open>
  \<^verbatim>\<open>s.replace(old, new)\<close>: the occurrences of \<^verbatim>\<open>old\<close> are found from the left and do
  not overlap. \<open>repl k\<close> skips \<open>k\<close> characters (the rest of an occurrence just
  replaced) and then scans on. An empty \<^verbatim>\<open>old\<close> matches before every character and
  at the end.
\<close>

fun repl :: "nat \<Rightarrow> string \<Rightarrow> string \<Rightarrow> string \<Rightarrow> string" where
  "repl k old new [] = []"
| "repl (Suc k) old new (c # cs) = repl k old new cs"
| "repl 0 old new (c # cs) =
     (if prefix old (c # cs) then new @ repl (length old - 1) old new cs
      else c # repl 0 old new cs)"

definition py_replace :: "string \<Rightarrow> string \<Rightarrow> string \<Rightarrow> string" where
  "py_replace s old new =
     (if old = [] then new @ concat (map (\<lambda>c. c # new) s) else repl 0 old new s)"

section \<open>Configuration block and the markers\<close>

definition hr_sep :: string where "hr_sep = [CHR 0xE2, CHR 0x94, CHR 0x80]"
definition txt_block_cut :: string where "txt_block_cut = [CHR 0xE2, CHR 0x9C, CHR 0x82]"
definition code_pref :: string where "code_pref = ''| ''"
definition list_pref :: string where "list_pref = ''- ''"
definition hr_ends :: string where "hr_ends = [CHR 0xE2, CHR 0x97, CHR 0x88]"
definition left_indent :: string where "left_indent = ''  ''"

definition code_start :: char where "code_start = CHR 0x07"
definition code_end :: char where "code_end = CHR 0x08"
definition stng_start :: char where "stng_start = CHR 0x16"
definition stng_end :: char where "stng_end = CHR 0x10"
definition emph_start :: char where "emph_start = CHR 0x11"
definition emph_end :: char where "emph_end = CHR 0x12"
definition hr_marker :: char where "hr_marker = CHR 0x15"

text \<open>
  The module's mutable globals. The colours \<^verbatim>\<open>R\<close>, \<^verbatim>\<open>L\<close>, \<^verbatim>\<open>T\<close> and \<^verbatim>\<open>C\<close> are the
  fields \<open>col_R\<close>, \<open>col_L\<close>, \<open>col_T\<close> and \<open>col_C\<close>. \<open>code_hl_tokens\<close> is the
  dictionary from a pygments token category (its name) to a colour, \<open>admons\<close> the
  admonition table in iteration order, \<open>stdout\<close> the lines printed so far, and
  \<open>have_pygments\<close> the flag the import of pygments sets.
\<close>

record globals =
  H1 :: int
  H2 :: int
  H3 :: int
  H4 :: int
  H5 :: int
  col_R :: int
  col_L :: int
  BG :: int
  BGL :: int
  col_T :: int
  TL :: int
  col_C :: int
  CH1 :: int
  CH2 :: int
  CH3 :: int
  CH4 :: int
  CH5 :: int
  background :: int
  have_pygments :: bool
  code_hl_tokens :: "(string \<times> int) list"
  admons :: "(string \<times> string) list"
  stdout :: "string list"

definition code_hl :: "(string \<times> string) list" where
  "code_hl = [(''Keyword'', ''CH3''), (''Name'', ''CH1''), (''Comment'', ''L''),
     (''String'', ''CH4''), (''Error'', ''R''), (''Number'', ''CH4''),
     (''Operator'', ''CH5''), (''Generic'', ''CH2'')]"

definition default_admons :: "(string \<times> string) list" where
  \<comment> \<open>the dictionary literal; its repeated key \<^verbatim>\<open>'hint'\<close> is one entry\<close>
  "default_admons = [(''note'', ''H3''), (''warning'', ''R''), (''attention'', ''H1''),
     (''hint'', ''H4''), (''summary'', ''H1''), (''question'', ''H5''),
     (''danger'', ''R''), (''dev'', ''H5''), (''caution'', ''H2'')]"

definition default_globals :: globals where
  "default_globals = \<lparr> H1 = 231, H2 = 153, H3 = 117, H4 = 109, H5 = 65, col_R = 124,
     col_L = 59, BG = 16, BGL = 188, col_T = 188, TL = 59, col_C = 102,
     CH1 = 231, CH2 = 153, CH3 = 117, CH4 = 109, CH5 = 65, background = 16,
     have_pygments = True, code_hl_tokens = [], admons = default_admons, stdout = [] \<rparr>"

definition globals_col :: "globals \<Rightarrow> string \<Rightarrow> int option" where
  \<comment> \<open>\<^verbatim>\<open>globals()[name]\<close> for the name of a colour; any other name is a KeyError\<close>
  "globals_col g n =
     (if n = ''H1'' then Some (H1 g) else if n = ''H2'' then Some (H2 g)
      else if n = ''H3'' then Some (H3 g) else if n = ''H4'' then Some (H4 g)
      else if n = ''H5'' then Some (H5 g) else if n = ''R'' then Some (col_R g)
      else if n = ''L'' then Some (col_L g) else if n = ''BG'' then Some (BG g)
      else if n = ''BGL'' then Some (BGL g) else if n = ''T'' then Some (col_T g)
      else if n = ''TL'' then Some (TL g) else if n = ''C'' then Some (col_C g)
      else if n = ''CH1'' then Some (CH1 g) else if n = ''CH2'' then Some (CH2 g)
      else if n = ''CH3'' then Some (CH3 g) else if n = ''CH4'' then Some (CH4 g)
      else if n = ''CH5'' then Some (CH5 g) else None)"

definition heading_col :: "globals \<Rightarrow> int \<Rightarrow> error + int" where
  \<comment> \<open>\<^verbatim>\<open>globals()['H%s' % n]\<close>\<close>
  "heading_col g n =
     (case globals_col g (CHR ''H'' # str_int n) of None \<Rightarrow> Inl KeyError | Some c \<Rightarrow> Inr c)"

section \<open>Colouring\<close>

definition esc_fg :: "int \<Rightarrow> string" where
  \<comment> \<open>\<^verbatim>\<open>'\033[38;5;%sm' % c\<close>, which is also \<^verbatim>\<open>col('', c, no_reset=1)\<close>\<close>
  "esc_fg c = CHR 0x1B # ''[38;5;'' @ str_int c @ ''m''"

definition reset_col :: string where
  "reset_col = CHR 0x1B # ''[0m''"

definition col_step :: "int \<Rightarrow> char \<times> char \<times> int \<Rightarrow> string \<Rightarrow> string" where
  \<comment> \<open>one round of the loop of \<^verbatim>\<open>col\<close> over the three marker pairs\<close>
  "col_step c m s =
     (case m of (strt, fin, mc) \<Rightarrow>
        if strt \<in> set s
        then py_replace (py_replace s [strt] (esc_fg mc)) [fin] (esc_fg c)
        else s)"

definition col :: "globals \<Rightarrow> string \<Rightarrow> int \<Rightarrow> bool \<Rightarrow> string" where
  "col g s c no_reset =
     esc_fg c
     @ fold (col_step c)
         [(code_start, code_end, H2 g), (stng_start, stng_end, H2 g),
          (emph_start, emph_end, H3 g)] s
     @ (if no_reset then [] else reset_col)"

definition low :: "globals \<Rightarrow> string \<Rightarrow> string" where
  "low g s = col g s (col_L g) False"

function clean_ansi :: "string \<Rightarrow> string" where
  "clean_ansi [] = []"
| "clean_ansi (c # cs) =
     (if c = CHR 0x1B
      then (if CHR ''m'' \<in> set cs
            then clean_ansi (tl (dropWhile (\<lambda>x. x \<noteq> CHR ''m'') cs))
            else c # cs)
      else c # clean_ansi cs)"
  by pat_completeness auto
termination
proof (relation "measure length")
  fix c :: char and cs :: string
  have "length (tl (dropWhile (\<lambda>x. x \<noteq> CHR ''m'') cs)) \<le> length cs"
    using length_dropWhile_le [of "\<lambda>x. x \<noteq> CHR ''m''" cs] by simp
  then show "(tl (dropWhile (\<lambda>x. x \<noteq> CHR ''m'') cs), c # cs) \<in> measure length"
    by simp
qed simp_all

section \<open>Palette: set_theme\<close>

text \<open>
  A catalogue entry is a JSON object of which the code reads the keys \<^verbatim>\<open>name\<close> (a
  string) and \<^verbatim>\<open>ct\<close> (a list of colours); \<open>t_keys\<close> are the other keys it holds. The
  object is empty (false in Python) when it holds no key at all. The catalogue is the
  dictionary \<^verbatim>\<open>read_themes()\<close> returns, in key order; \<open>rnd\<close> stands for the draw of
  \<^verbatim>\<open>randint\<close>, and \<open>env\<close> for the process environment.
\<close>

record theme_entry =
  t_name :: "string option"
  t_ct :: "int list option"
  t_keys :: "string list"

definition is_empty_entry :: "theme_entry \<Rightarrow> bool" where
  \<comment> \<open>\<^verbatim>\<open>not t\<close> for a dictionary \<^verbatim>\<open>t\<close>\<close>
  "is_empty_entry t = (t_name t = None \<and> t_ct t = None \<and> t_keys t = [])"

definition first_env :: "(string \<Rightarrow> string option) \<Rightarrow> string list \<Rightarrow> string option" where
  "first_env env ks =
     (case filter (\<lambda>v. v \<noteq> []) (List.map_filter env ks) of [] \<Rightarrow> None | v # _ \<Rightarrow> Some v)"

definition resolve_name ::
  "(string \<Rightarrow> string option) \<Rightarrow> (string \<times> theme_entry) list \<Rightarrow> nat \<Rightarrow> bool \<Rightarrow> string option
   \<Rightarrow> error + string option" where
  \<comment> \<open>lines 312 to 328: the name \<^verbatim>\<open>themes.get\<close> is called with; \<open>Inr None\<close> is the
      early return of \<^verbatim>\<open>if not theme\<close>\<close>
  "resolve_name env catalog rnd for_code theme =
     (let dflt = (if for_code then Some ''default'' else None);
          on_dflt = (if for_code then None else Some ''random'');
          envs = (if for_code then [''MDV_CODE_THEME'', ''AXC_CODE_THEME'']
                  else [''MDV_THEME'', ''AXC_THEME'']);
          th1 = (if theme = dflt
                 then (case first_env env envs of Some ek \<Rightarrow> Some ek | None \<Rightarrow> theme)
                 else theme);
          th2 = (if th1 = dflt then on_dflt else th1)
      in case th2 of
           None \<Rightarrow> Inr None
         | Some th \<Rightarrow>
             if th = [] then Inr None
             else if th = ''random''
             then (if catalog = [] then Inl ValueError
                   else Inr (Some (map fst catalog ! (rnd mod length catalog))))
             else Inr (Some th))"

definition build_hl_by_token :: "globals \<Rightarrow> error option \<times> globals" where
  "build_hl_by_token g =
     (if \<not> have_pygments g then (None, g)
      else fold (\<lambda>kc r. case r of
                   (Some e, g') \<Rightarrow> (Some e, g')
                 | (None, g') \<Rightarrow>
                     (case globals_col g' (snd kc) of
                        None \<Rightarrow> (Some KeyError, g')
                      | Some v \<Rightarrow>
                          (None, g'\<lparr>code_hl_tokens :=
                                     AList.update (fst kc) v (code_hl_tokens g')\<rparr>)))
             code_hl (None, g))"

definition theme_msg :: "globals \<Rightarrow> bool \<Rightarrow> string \<Rightarrow> theme_entry \<Rightarrow> string" where
  \<comment> \<open>the line \<^verbatim>\<open>print(low('theme%s: %s (%s)' % (_for, theme, t.get('name'))))\<close> writes\<close>
  "theme_msg g for_code nm t =
     low g (''theme'' @ (if for_code then '' (code)'' else []) @ '': '' @ nm @ '' (''
            @ (case t_name t of None \<Rightarrow> ''None'' | Some n \<Rightarrow> n) @ '')'')"

definition set_theme_try ::
  "(string \<Rightarrow> string option) \<Rightarrow> (string \<times> theme_entry) list \<Rightarrow> nat \<Rightarrow> string option \<Rightarrow> bool
   \<Rightarrow> bool \<Rightarrow> globals \<Rightarrow> error option \<times> globals" where
  \<comment> \<open>the body of the \<^verbatim>\<open>try\<close>\<close>
  "set_theme_try env catalog rnd theme for_code theme_info g =
     (case resolve_name env catalog rnd for_code theme of
        Inl e \<Rightarrow> (Some e, g)
      | Inr None \<Rightarrow> (None, g)
      | Inr (Some nm) \<Rightarrow>
          (case map_of catalog nm of
             None \<Rightarrow> (None, g)
           | Some t \<Rightarrow>
               if is_empty_entry t then (None, g)
               else (case t_ct t of
                       None \<Rightarrow> (Some TypeError, g)
                     | Some cs \<Rightarrow>
                         if length cs \<noteq> 5 then (None, g)
                         else
                           let g1 = (if theme_info
                                     then g\<lparr>stdout := stdout g @ [theme_msg g for_code nm t]\<rparr>
                                     else g)
                           in if for_code
                              then (None, g1\<lparr>CH1 := cs ! 0, CH2 := cs ! 1, CH3 := cs ! 2,
                                              CH4 := cs ! 3, CH5 := cs ! 4\<rparr>)
                              else (None, g1\<lparr>H1 := cs ! 0, H2 := cs ! 1, H3 := cs ! 2,
                                              H4 := cs ! 3, H5 := cs ! 4\<rparr>))))"

definition set_theme ::
  "(string \<Rightarrow> string option) \<Rightarrow> (string \<times> theme_entry) list \<Rightarrow> nat \<Rightarrow> string option \<Rightarrow> bool
   \<Rightarrow> bool \<Rightarrow> globals \<Rightarrow> error option \<times> globals" where
  \<comment> \<open>the \<^verbatim>\<open>finally\<close> clause runs on every path, also when the body raised\<close>
  "set_theme env catalog rnd theme for_code theme_info g =
     (case set_theme_try env catalog rnd theme for_code theme_info g of
        (e, g') \<Rightarrow>
          if for_code
          then (case build_hl_by_token g' of
                  (None, g'') \<Rightarrow> (e, g'')
                | (Some e', g'') \<Rightarrow> (Some e', g''))
          else (e, g'))"

definition heading_colors :: "globals \<Rightarrow> int list" where
  "heading_colors g = [H1 g, H2 g, H3 g, H4 g, H5 g]"

definition code_colors :: "globals \<Rightarrow> int list" where
  "code_colors g = [CH1 g, CH2 g, CH3 g, CH4 g, CH5 g]"

definition hl_consistent :: "globals \<Rightarrow> bool" where
  \<comment> \<open>every category of \<^verbatim>\<open>code_hl\<close> is mapped to the current value of its colour\<close>
  "hl_consistent g = list_all (\<lambda>kc. map_of (code_hl_tokens g) (fst kc) = globals_col g (snd kc)) code_hl"

definition demo_catalog :: "(string \<times> theme_entry) list" where
  \<comment> \<open>a two-entry catalogue for the concrete instances: one entry of five colours, one of four\<close>
  "demo_catalog = [(''a'', \<lparr>t_name = Some ''A'', t_ct = Some [1, 2, 3, 4, 5], t_keys = []\<rparr>),
                   (''b'', \<lparr>t_name = Some ''B'', t_ct = Some [1, 2, 3, 4], t_keys = []\<rparr>)]"

section \<open>More string primitives\<close>

definition nl :: string where
  "nl = [CHR 0x0A]"

definition is_space :: "char \<Rightarrow> bool" where
  \<comment> \<open>\<^verbatim>\<open>string.whitespace\<close> of Python 2, which is also \<^verbatim>\<open>\s\<close> for a byte string\<close>
  "is_space c = (c = CHR 0x20 \<or> c = CHR 0x09 \<or> c = CHR 0x0A \<or> c = CHR 0x0D
                 \<or> c = CHR 0x0B \<or> c = CHR 0x0C)"

definition py_lstrip :: "string \<Rightarrow> string" where
  "py_lstrip s = dropWhile is_space s"

definition py_strip :: "string \<Rightarrow> string" where
  "py_strip s = rev (dropWhile is_space (rev (dropWhile is_space s)))"

definition py_join :: "string \<Rightarrow> string list \<Rightarrow> string" where
  \<comment> \<open>\<^verbatim>\<open>sep.join(xs)\<close>\<close>
  "py_join sep xs = (case xs of [] \<Rightarrow> [] | x # r \<Rightarrow> x @ concat (map (\<lambda>y. sep @ y) r))"

definition py_repeat :: "string \<Rightarrow> int \<Rightarrow> string" where
  \<comment> \<open>\<^verbatim>\<open>s * n\<close>, empty when \<^verbatim>\<open>n\<close> is negative\<close>
  "py_repeat s n = concat (replicate (nat n) s)"

fun py_split1 :: "string \<Rightarrow> string \<Rightarrow> string \<times> string option" where
  \<comment> \<open>\<^verbatim>\<open>s.split(sep, 1)\<close> for a non-empty \<^verbatim>\<open>sep\<close>: the text before the first occurrence,
      and the text after it when there is one\<close>
  "py_split1 sep [] = ([], None)"
| "py_split1 sep (c # cs) =
     (if prefix sep (c # cs) then ([], Some (drop (length sep) (c # cs)))
      else (case py_split1 sep cs of (a, b) \<Rightarrow> (c # a, b)))"

fun lines_from :: "string \<Rightarrow> string \<Rightarrow> string list" where
  "lines_from cur [] = (if cur = [] then [] else [cur])"
| "lines_from cur [c] = (if c = CHR 0x0A \<or> c = CHR 0x0D then [cur] else [cur @ [c]])"
| "lines_from cur (c # d # ds) =
     (if c = CHR 0x0A then cur # lines_from [] (d # ds)
      else if c = CHR 0x0D
      then (if d = CHR 0x0A then cur # lines_from [] ds else cur # lines_from [] (d # ds))
      else lines_from (cur @ [c]) (d # ds))"

definition py_splitlines :: "string \<Rightarrow> string list" where
  \<comment> \<open>\<^verbatim>\<open>s.splitlines()\<close> of a byte string: the breaks are \<^verbatim>\<open>\n\<close>, \<^verbatim>\<open>\r\<close> and \<^verbatim>\<open>\r\n\<close>\<close>
  "py_splitlines s = lines_from [] s"

fun split_nl_from :: "string \<Rightarrow> string \<Rightarrow> string list" where
  "split_nl_from cur [] = [cur]"
| "split_nl_from cur (c # cs) =
     (if c = CHR 0x0A then cur # split_nl_from [] cs else split_nl_from (cur @ [c]) cs)"

definition split_nl :: "string \<Rightarrow> string list" where
  \<comment> \<open>\<^verbatim>\<open>s.split('\n')\<close>\<close>
  "split_nl s = split_nl_from [] s"

section \<open>The textwrap module\<close>

text \<open>
  \<^verbatim>\<open>rewrap\<close> calls \<^verbatim>\<open>textwrap.dedent\<close> and \<^verbatim>\<open>textwrap.fill\<close> of the Python 2.7 standard
  library, with the defaults of \<^verbatim>\<open>TextWrapper\<close>: tabs are expanded, whitespace becomes
  spaces, \<^verbatim>\<open>break_long_words\<close>, \<^verbatim>\<open>break_on_hyphens\<close> and \<^verbatim>\<open>drop_whitespace\<close> are on, the
  indents are empty.
  The library cuts the text into chunks with \<^verbatim>\<open>wordsep_re.split\<close>; that cut is the
  parameter \<open>wsplit\<close> of the model, and \<open>wordsep_split\<close> is the library's own. Its
  regular expression has three alternatives, tried in this order at every position from
  the left: a run of whitespace; a hyphenated word up to and including its hyphen
  (\<^verbatim>\<open>[^\s\w]*\w+[^0-9\W]-(?=\w+[^0-9\W])\<close>); and two or more hyphens between words
  (\<^verbatim>\<open>(?<=[\w\!\"\'\&\.\,\?])-{2,}(?=\w)\<close>). The character classes of a byte string
  are the ASCII ones. Every repetition in these alternatives can only end where its
  character class ends, so each alternative has at most one match at a position.
\<close>

fun expandtabs_from :: "nat \<Rightarrow> string \<Rightarrow> string" where
  "expandtabs_from j [] = []"
| "expandtabs_from j (c # cs) =
     (if c = CHR 0x09 then replicate (8 - j mod 8) (CHR 0x20) @ expandtabs_from 0 cs
      else if c = CHR 0x0A \<or> c = CHR 0x0D then c # expandtabs_from 0 cs
      else c # expandtabs_from (Suc j) cs)"

definition munge_whitespace :: "string \<Rightarrow> string" where
  "munge_whitespace s = map (\<lambda>c. if is_space c then CHR 0x20 else c) (expandtabs_from 0 s)"

definition is_word :: "char \<Rightarrow> bool" where
  \<comment> \<open>\<^verbatim>\<open>\w\<close> for a byte string: a letter, a digit or the underscore\<close>
  "is_word c = (let n = (of_char c :: nat) in
     (48 \<le> n \<and> n \<le> 57) \<or> (65 \<le> n \<and> n \<le> 90) \<or> n = 95 \<or> (97 \<le> n \<and> n \<le> 122))"

definition is_letter :: "char \<Rightarrow> bool" where
  \<comment> \<open>\<^verbatim>\<open>[^0-9\W]\<close>\<close>
  "is_letter c = (is_word c \<and> \<not> (let n = (of_char c :: nat) in 48 \<le> n \<and> n \<le> 57))"

definition is_punct :: "char \<Rightarrow> bool" where
  \<comment> \<open>\<^verbatim>\<open>[^\s\w]\<close>\<close>
  "is_punct c = (\<not> is_space c \<and> \<not> is_word c)"

definition ws_match :: "string \<Rightarrow> nat option" where
  \<comment> \<open>\<^verbatim>\<open>\s+\<close> at the start of the text: the length of the match\<close>
  "ws_match s = (let n = length (takeWhile is_space s) in if n = 0 then None else Some n)"

definition hyphen_match :: "string \<Rightarrow> nat option" where
  \<comment> \<open>\<^verbatim>\<open>[^\s\w]*\w+[^0-9\W]-(?=\w+[^0-9\W])\<close> at the start of the text\<close>
  "hyphen_match s =
     (let p = takeWhile is_punct s; r1 = drop (length p) s;
          w = takeWhile is_word r1; r2 = drop (length w) r1;
          v = takeWhile is_word (tl r2)
      in if 2 \<le> length w \<and> is_letter (last w) \<and> prefix ''-'' r2 \<and> list_ex is_letter (tl v)
         then Some (length p + length w + 1) else None)"

definition dash_match :: "char option \<Rightarrow> string \<Rightarrow> nat option" where
  \<comment> \<open>\<^verbatim>\<open>(?<=[\w\!\"\'\&\.\,\?])-{2,}(?=\w)\<close> at the start of the text, \<open>prev\<close> being the
      character before it\<close>
  "dash_match prev s =
     (let h = takeWhile (\<lambda>c. c = CHR ''-'') s; r = drop (length h) s
      in if (case prev of None \<Rightarrow> False
             | Some c \<Rightarrow> is_word c \<or> c \<in> set [CHR ''!'', CHR 0x22, CHR 0x27, CHR ''&'', CHR ''.'', CHR '','', CHR ''?''])
            \<and> 2 \<le> length h \<and> r \<noteq> [] \<and> is_word (hd r)
         then Some (length h) else None)"

definition sep_match :: "char option \<Rightarrow> string \<Rightarrow> nat option" where
  \<comment> \<open>the three alternatives of \<^verbatim>\<open>wordsep_re\<close>, tried in their order\<close>
  "sep_match prev s =
     (case ws_match s of
        Some n \<Rightarrow> Some n
      | None \<Rightarrow> (case hyphen_match s of Some n \<Rightarrow> Some n | None \<Rightarrow> dash_match prev s))"

fun wordsep_from :: "char option \<Rightarrow> string \<Rightarrow> string \<Rightarrow> string list" where
  \<comment> \<open>the scan of \<^verbatim>\<open>split\<close>: \<open>cur\<close> is the text since the last match, \<open>prev\<close> the character
      before the position; a match of \<open>n\<close> characters is never empty, so it is the
      character at the position and \<open>n - 1\<close> more\<close>
  "wordsep_from prev cur [] = [cur]"
| "wordsep_from prev cur (c # cs) =
     (case sep_match prev (c # cs) of
        Some n \<Rightarrow> cur # (c # take (n - 1) cs)
                  # wordsep_from (Some (last (c # take (n - 1) cs))) [] (drop (n - 1) cs)
      | None \<Rightarrow> wordsep_from (Some c) (cur @ [c]) cs)"

definition wordsep_split :: "string \<Rightarrow> string list" where
  \<comment> \<open>\<^verbatim>\<open>wordsep_re.split(text)\<close>\<close>
  "wordsep_split s = wordsep_from None [] s"

fun take_fitting :: "nat \<Rightarrow> nat \<Rightarrow> string list \<Rightarrow> string list \<times> string list" where
  \<comment> \<open>the inner loop of \<^verbatim>\<open>_wrap_chunks\<close>: the chunks that fit on the line, and the rest\<close>
  "take_fitting width cur_len [] = ([], [])"
| "take_fitting width cur_len (c # cs) =
     (if cur_len + length c \<le> width
      then (case take_fitting width (cur_len + length c) cs of (line, rest) \<Rightarrow> (c # line, rest))
      else ([], c # cs))"

definition handle_long_word ::
  "nat \<Rightarrow> string list \<Rightarrow> string list \<Rightarrow> string list \<times> string list" where
  \<comment> \<open>\<^verbatim>\<open>_handle_long_word\<close> with \<^verbatim>\<open>break_long_words\<close>, called when the next chunk is
      longer than the width\<close>
  "handle_long_word width cur rest =
     (case rest of
        [] \<Rightarrow> (cur, rest)
      | c # cs \<Rightarrow>
          if length c > width
          then (let space_left = (if width < 1 then 1 else width - length (concat cur))
                in (cur @ [take space_left c], drop space_left c # cs))
          else (cur, rest))"

definition wrap_line :: "nat \<Rightarrow> bool \<Rightarrow> string list \<Rightarrow> string list \<times> string list" where
  \<comment> \<open>one round of the outer loop of \<^verbatim>\<open>_wrap_chunks\<close>; \<open>started\<close> says that a line was
      already produced\<close>
  "wrap_line width started chunks =
     (let chunks1 = (case chunks of
                       [] \<Rightarrow> []
                     | c # cs \<Rightarrow> if py_strip c = [] \<and> started then cs else chunks)
      in case take_fitting width 0 chunks1 of (cur, rest) \<Rightarrow>
           (case handle_long_word width cur rest of (cur2, rest2) \<Rightarrow>
              (if cur2 \<noteq> [] \<and> py_strip (last cur2) = [] then butlast cur2 else cur2, rest2)))"

definition csize :: "string list \<Rightarrow> nat" where
  "csize chunks = length chunks + length (concat chunks)"

lemma take_fitting_concat:
  "take_fitting width n chunks = (cur, rest) \<Longrightarrow> chunks = cur @ rest"
  by (induction chunks arbitrary: n cur rest) (auto split: if_splits prod.splits)

lemma take_fitting_stuck:
  "take_fitting width n chunks = ([], rest) \<Longrightarrow> chunks \<noteq> [] \<Longrightarrow> width < n + length (hd chunks)"
  by (cases chunks) (auto split: if_splits prod.splits)

lemma wrap_line_decreases:
  assumes "chunks \<noteq> []"
  shows "csize (snd (wrap_line width started chunks)) < csize chunks"
proof -
  define chunks1 where "chunks1 = (case chunks of
                       [] \<Rightarrow> []
                     | c # cs \<Rightarrow> if py_strip c = [] \<and> started then cs else chunks)"
  obtain cur rest where tf: "take_fitting width 0 chunks1 = (cur, rest)"
    by (cases "take_fitting width 0 chunks1")
  have c1: "chunks1 = cur @ rest" using tf by (rule take_fitting_concat)
  have le1: "csize chunks1 \<le> csize chunks"
    using assms by (cases chunks) (auto simp add: chunks1_def csize_def)
  have snd_eq: "snd (wrap_line width started chunks) = snd (handle_long_word width cur rest)"
    by (simp add: wrap_line_def chunks1_def [symmetric] tf split: prod.splits)
  have hl: "csize (snd (handle_long_word width cur rest)) \<le> csize rest"
    by (auto simp add: handle_long_word_def csize_def Let_def split: list.splits)
  show ?thesis
  proof (cases "chunks1 = chunks")
    case False
    then have "csize chunks1 < csize chunks"
      using assms by (cases chunks) (auto simp add: chunks1_def csize_def split: if_splits)
    moreover have "csize rest \<le> csize chunks1" by (simp add: c1 csize_def)
    ultimately show ?thesis using hl snd_eq by simp
  next
    case True
    show ?thesis
    proof (cases "cur = []")
      case False
      then have "csize rest < csize chunks1" by (cases cur) (auto simp add: c1 csize_def)
      then show ?thesis using hl snd_eq le1 by simp
    next
      case cur: True
      with c1 True assms have r: "rest = chunks" "rest \<noteq> []" by simp_all
      then obtain c cs where rc: "rest = c # cs" by (cases rest) auto
      have ch: "chunks1 = c # cs" using c1 cur rc by simp
      have "take_fitting width 0 (c # cs) = ([], rest)" using tf cur ch by simp
      from take_fitting_stuck [OF this]
      have "width < length c" by simp
      then have "csize (snd (handle_long_word width cur rest)) < csize rest"
        by (auto simp add: handle_long_word_def rc cur csize_def)
      then show ?thesis using snd_eq r by simp
    qed
  qed
qed

function wrap_chunks :: "nat \<Rightarrow> string list \<Rightarrow> string list \<Rightarrow> string list" where
  "wrap_chunks width lines chunks =
     (if chunks = [] then lines
      else wrap_chunks width
             (if fst (wrap_line width (lines \<noteq> []) chunks) = [] then lines
              else lines @ [concat (fst (wrap_line width (lines \<noteq> []) chunks))])
             (snd (wrap_line width (lines \<noteq> []) chunks)))"
  by pat_completeness auto
termination
  by (relation "measure (\<lambda>(width, lines, chunks). csize chunks)")
     (auto simp add: wrap_line_decreases)

declare wrap_chunks.simps [simp del]

definition fill :: "(string \<Rightarrow> string list) \<Rightarrow> nat \<Rightarrow> string \<Rightarrow> error + string" where
  \<comment> \<open>\<^verbatim>\<open>textwrap.fill(text, width=width)\<close>; a width of zero is refused\<close>
  "fill wsplit width text =
     (if width = 0 then Inl ValueError
      else Inr (py_join nl
             (wrap_chunks width [] (filter (\<lambda>c. c \<noteq> []) (wsplit (munge_whitespace text))))))"

definition is_blank :: "char \<Rightarrow> bool" where
  "is_blank c = (c = CHR 0x20 \<or> c = CHR 0x09)"

fun lcp :: "string \<Rightarrow> string \<Rightarrow> string" where
  "lcp (x # xs) (y # ys) = (if x = y then x # lcp xs ys else [])"
| "lcp xs ys = []"

definition dedent :: "string \<Rightarrow> string" where
  \<comment> \<open>\<^verbatim>\<open>textwrap.dedent\<close>: lines of blanks are emptied, then the longest common leading
      run of blanks of the other non-empty lines is removed from every line\<close>
  "dedent text =
     (let ls = map (\<lambda>l. if l \<noteq> [] \<and> list_all is_blank l then [] else l) (split_nl text);
          indents = map (takeWhile is_blank) (filter (\<lambda>l. dropWhile is_blank l \<noteq> []) ls);
          margin = (case indents of [] \<Rightarrow> [] | i # r \<Rightarrow> fold (\<lambda>indent m. lcp m indent) r i)
      in py_join nl
           (map (\<lambda>l. if margin \<noteq> [] \<and> prefix margin l then drop (length margin) l else l) ls))"

section \<open>Reflow: rewrap\<close>

definition avail_cols :: "int \<Rightarrow> string \<Rightarrow> string \<Rightarrow> nat" where
  \<comment> \<open>\<^verbatim>\<open>max(term_columns - len(ind + pref), 5)\<close>\<close>
  "avail_cols term_columns ind pref = nat (max (term_columns - int (length (ind @ pref))) 5)"

definition rewrap ::
  "(string \<Rightarrow> string list) \<Rightarrow> int \<Rightarrow> string \<Rightarrow> string \<Rightarrow> string \<Rightarrow> string \<Rightarrow> error + string" where
  \<comment> \<open>\<^verbatim>\<open>rewrap(el, t, ind, pref)\<close>; \<open>tag\<close> is \<^verbatim>\<open>el.tag\<close>, the code after the
      \<^verbatim>\<open>return ret\<close> is dead\<close>
  "rewrap wsplit term_columns tag t ind pref =
     (let cols = avail_cols term_columns ind pref in
      if tag = ''code'' \<or> length t \<le> cols then Inr t
      else if prefix [CHR 0x02] t \<and> suffix [CHR 0x03] t then Inr t
      else fill wsplit cols (py_strip (dedent t)))"

section \<open>Tag formatters: hr\<close>

definition hr_text :: "globals \<Rightarrow> int \<Rightarrow> int \<Rightarrow> string" where
  \<comment> \<open>what \<^verbatim>\<open>Tags.hr\<close> returns once the colour \<open>c\<close> of the end glyphs is looked up\<close>
  "hr_text g hir c =
     (let ind = py_repeat left_indent (hir - 1); s = col g hr_ends c False
      in low g (nl @ ind @ s @ [hr_marker] @ s @ ind @ nl))"

definition hr :: "globals \<Rightarrow> int \<Rightarrow> error + string" where
  \<comment> \<open>\<^verbatim>\<open>Tags.hr(s, hir=hir)\<close>: the colour is \<^verbatim>\<open>globals()['H%s' % hir]\<close>\<close>
  "hr g hir = (case heading_col g hir of Inl e \<Rightarrow> Inl e | Inr c \<Rightarrow> Inr (hr_text g hir c))"

definition formatter_hr :: "globals \<Rightarrow> int \<Rightarrow> string list \<Rightarrow> error + string list" where
  \<comment> \<open>the branch \<^verbatim>\<open>if el.tag == 'hr': return out.append(tags.hr('', hir=hir))\<close>\<close>
  "formatter_hr g hir out = (case hr g hir of Inl e \<Rightarrow> Inl e | Inr s \<Rightarrow> Inr (out @ [s]))"

definition rotated_heading :: "int \<Rightarrow> int" where
  \<comment> \<open>the colour number \<^verbatim>\<open>((hir - 2) % 5) + 1\<close> the formatter uses for list prefixes\<close>
  "rotated_heading hir = ((hir - 2) mod 5) + 1"

section \<open>Rule sizer: set_hr_widths\<close>

fun mw_scan :: "nat \<Rightarrow> string list \<Rightarrow> nat" where
  \<comment> \<open>the first loop: the widest line without a marker, escapes stripped\<close>
  "mw_scan mw [] = mw"
| "mw_scan mw (line # ls) =
     (if hr_marker \<in> set line then mw_scan mw ls
      else if length line < mw then mw_scan mw ls
      else (let l = length (clean_ansi line) in mw_scan (if l > mw then l else mw) ls))"

definition hr_indent :: "string \<Rightarrow> error + int" where
  \<comment> \<open>\<^verbatim>\<open>len(hcl) - len(hcl.split(hr_marker, 1)[1]) - 1\<close>\<close>
  "hr_indent hcl =
     (case py_split1 [hr_marker] hcl of
        (a, None) \<Rightarrow> Inl IndexError
      | (a, Some b) \<Rightarrow> Inr (int (length hcl) - int (length b) - 1))"

fun fill_hrs :: "int \<Rightarrow> nat \<Rightarrow> string list \<Rightarrow> string \<Rightarrow> error + string" where
  \<comment> \<open>the second loop, over the lines that hold a marker\<close>
  "fill_hrs term_columns mw [] result = Inr result"
| "fill_hrs term_columns mw (h # hrs) result =
     (case hr_indent (clean_ansi h) of
        Inl e \<Rightarrow> Inl e
      | Inr ind \<Rightarrow>
          (let w = min term_columns (int mw) - 2 * ind;
               hrf = py_replace h [hr_marker] (py_repeat hr_sep w)
           in fill_hrs term_columns mw hrs (py_replace result h hrf)))"

definition set_hr_widths :: "int \<Rightarrow> string \<Rightarrow> error + string" where
  "set_hr_widths term_columns result =
     (if hr_marker \<notin> set result then Inr result
      else (let ls = py_splitlines result
            in fill_hrs term_columns (mw_scan 0 ls) (filter (\<lambda>l. hr_marker \<in> set l) ls) result))"

section \<open>The end of main\<close>

definition main_return :: "int \<Rightarrow> bool \<Rightarrow> string \<Rightarrow> error + string" where
  \<comment> \<open>lines 1030 to 1033: \<open>ansi\<close> is the rendered text the rule sizer is given\<close>
  "main_return term_columns no_colors ansi =
     (case set_hr_widths term_columns ansi of
        Inl e \<Rightarrow> Inl e
      | Inr r \<Rightarrow> (let a = r @ nl in if no_colors then Inr (clean_ansi a) else Inr (a @ nl)))"

section \<open>Formatter: inline tags and admonitions\<close>

definition inline_tags :: "(string \<times> char \<times> char) list" where
  "inline_tags = [(''code'', code_start, code_end), (''strong'', stng_start, stng_end),
                  (''em'', emph_start, emph_end)]"

definition encode_tag :: "string \<times> char \<times> char \<Rightarrow> string \<Rightarrow> string" where
  \<comment> \<open>\<^verbatim>\<open>t.replace('<%s>' % tg, start)\<close> followed by \<^verbatim>\<open>t.replace('</%s>' % tg, end)\<close>\<close>
  "encode_tag m t =
     (case m of (tg, start, fin) \<Rightarrow>
        py_replace (py_replace t (''<'' @ tg @ ''>'') [start]) (''</'' @ tg @ ''>'') [fin])"

definition encode_inline :: "string \<Rightarrow> string" where
  \<comment> \<open>the loop of lines 611 to 615 (the entities are unescaped afterwards by the HTML
      parser, which is not part of this model)\<close>
  "encode_inline t = fold encode_tag inline_tags t"

definition decode_tag :: "string \<times> char \<times> char \<Rightarrow> string \<Rightarrow> string" where
  "decode_tag m t =
     (case m of (tg, start, fin) \<Rightarrow>
        py_replace (py_replace t [fin] (''</'' @ tg @ ''>'')) [start] (''<'' @ tg @ ''>''))"

definition markers_to_tags :: "string \<Rightarrow> string" where
  \<comment> \<open>Follows the spec, not the source: the decode direction of the Marker Codec, every
      marker replaced by the tag it stands for. The source has no such function; it
      turns the markers into colour escapes in \<^verbatim>\<open>col\<close>.\<close>
  "markers_to_tags t = fold decode_tag (rev inline_tags) t"

definition marker_bytes :: "char set" where
  "marker_bytes = {code_start, code_end, stng_start, stng_end, emph_start, emph_end}"

definition to_upper :: "char \<Rightarrow> char" where
  "to_upper c = (let n = (of_char c :: nat) in if 97 \<le> n \<and> n \<le> 122 then char_of (n - 32) else c)"

definition to_lower :: "char \<Rightarrow> char" where
  "to_lower c = (let n = (of_char c :: nat) in if 65 \<le> n \<and> n \<le> 90 then char_of (n + 32) else c)"

definition py_capitalize :: "string \<Rightarrow> string" where
  "py_capitalize s = (case s of [] \<Rightarrow> [] | c # cs \<Rightarrow> to_upper c # map to_lower cs)"

definition admon_bar :: string where
  "admon_bar = [CHR 0xE2, CHR 0x94, CHR 0x83, CHR 0x20]"

record admon_result =
  ar_admons :: "(string \<times> string) list"
  ar_pref :: string
  ar_body_pref :: string
  ar_admon :: string
  ar_text :: string

definition admon_step :: "(string \<times> string) list \<Rightarrow> string \<Rightarrow> error + admon_result" where
  \<comment> \<open>lines 621 to 638, for the stripped text \<open>t\<close> and the table \<open>adm\<close> in its iteration
      order; \<^verbatim>\<open>admons.values()[0]\<close> is the colour of its first entry\<close>
  "admon_step adm t =
     (if \<not> prefix ''!!! '' t
      then Inr \<lparr>ar_admons = adm, ar_pref = [], ar_body_pref = [], ar_admon = [], ar_text = t\<rparr>
      else
        (let found = find (\<lambda>k. prefix k (drop 4 t)) (map fst adm) in
         case (case found of
                 Some (c # cs) \<Rightarrow> Inr (c # cs, adm)
               | _ \<Rightarrow>
                   (case adm of
                      [] \<Rightarrow> Inl IndexError
                    | kv # _ \<Rightarrow>
                        (let k = fst (py_split1 '' '' (drop 4 t))
                         in Inr (k, AList.update k (snd kv) adm)))) of
           Inl e \<Rightarrow> Inl e
         | Inr (k, adm') \<Rightarrow>
             if k = [] then Inl ValueError
             else (case py_split1 k t of
                     (a, None) \<Rightarrow> Inl IndexError
                   | (a, Some b) \<Rightarrow>
                       Inr \<lparr>ar_admons = adm', ar_pref = admon_bar @ py_capitalize k,
                            ar_body_pref = admon_bar, ar_admon = k, ar_text = b\<rparr>)))"

section \<open>Table renderer: split_blocks\<close>

definition py_ljust :: "string \<Rightarrow> int \<Rightarrow> string" where
  \<comment> \<open>\<^verbatim>\<open>s.ljust(w, ' ')\<close>\<close>
  "py_ljust s w = s @ replicate (nat (w - int (length s))) (CHR 0x20)"

definition norm_index :: "nat \<Rightarrow> int \<Rightarrow> nat" where
  \<comment> \<open>a slice bound on a sequence of length \<open>n\<close>: negative bounds count from the end,
      and every bound is clipped\<close>
  "norm_index n i = (if i < 0 then nat (max (i + int n) 0) else min (nat i) n)"

definition py_slice :: "string \<Rightarrow> int \<Rightarrow> int \<Rightarrow> string" where
  \<comment> \<open>\<^verbatim>\<open>s[a:b]\<close>\<close>
  "py_slice s a b =
     (let a' = norm_index (length s) a; b' = norm_index (length s) b
      in take (b' - a') (drop a' s))"

definition py_range :: "int \<Rightarrow> int \<Rightarrow> int \<Rightarrow> error + int list" where
  \<comment> \<open>\<^verbatim>\<open>range(start, stop, step)\<close>; a step of zero is a ValueError\<close>
  "py_range start stop step =
     (if step = 0 then Inl ValueError
      else if step > 0
      then Inr (map (\<lambda>k. start + int k * step) [0..<nat ((stop - start + step - 1) div step)])
      else Inr (map (\<lambda>k. start + int k * step) [0..<nat ((start - stop - step - 1) div (- step))]))"

fun collect :: "(error + 'a) list \<Rightarrow> error + 'a list" where
  \<comment> \<open>the results of a loop body run over a list; the first exception ends the loop\<close>
  "collect [] = Inr []"
| "collect (x # xs) =
     (case x of
        Inl e \<Rightarrow> Inl e
      | Inr v \<Rightarrow> (case collect xs of Inl e \<Rightarrow> Inl e | Inr vs \<Rightarrow> Inr (v # vs)))"

definition line_cuts :: "int \<Rightarrow> string \<Rightarrow> error + string list" where
  \<comment> \<open>the column ranges a line is cut into: \<^verbatim>\<open>line[:cols]\<close>, then \<^verbatim>\<open>line[i:i + scols]\<close> for
      \<^verbatim>\<open>i in range(cols, len(line), scols)\<close>\<close>
  "line_cuts cols line =
     (case py_range cols (int (length line)) (cols - 2) of
        Inl e \<Rightarrow> Inl e
      | Inr ns \<Rightarrow> Inr (py_slice line 0 cols # map (\<lambda>i. py_slice line i (i + (cols - 2))) ns))"

definition cut_prefix :: "globals \<Rightarrow> string" where
  \<comment> \<open>\<^verbatim>\<open>' ' + col(txt_block_cut, L, no_reset=1)\<close>\<close>
  "cut_prefix g = CHR 0x20 # col g txt_block_cut (col_L g) True"

definition line_parts :: "globals \<Rightarrow> int \<Rightarrow> string \<Rightarrow> error + string list" where
  \<comment> \<open>\<^verbatim>\<open>parts\<close> for one line, already padded\<close>
  "line_parts g cols line =
     (case line_cuts cols line of
        Inl e \<Rightarrow> Inl e
      | Inr cuts \<Rightarrow> Inr (hd cuts # map (\<lambda>c. cut_prefix g @ c) (tl cuts)))"

definition borders :: "globals \<Rightarrow> string list \<Rightarrow> error + string list" where
  \<comment> \<open>\<^verbatim>\<open>t[0] = t[-1] = low(t[0].replace('-', hr_sep))\<close>\<close>
  "borders g t =
     (case t of
        [] \<Rightarrow> Inl IndexError
      | x # _ \<Rightarrow> (let b = low g (py_replace x ''-'' hr_sep) in Inr ((t[0 := b])[length t - 1 := b])))"

definition block_rows :: "string list list \<Rightarrow> nat \<Rightarrow> error + string list" where
  \<comment> \<open>\<^verbatim>\<open>tpart\<close>: the chunk number \<open>n\<close> of every line\<close>
  "block_rows ts n =
     (if list_all (\<lambda>lb. n < length lb) ts then Inr (map (\<lambda>lb. lb ! n) ts) else Inl IndexError)"

definition block_text :: "globals \<Rightarrow> string list list \<Rightarrow> nat \<Rightarrow> error + string" where
  "block_text g ts n =
     (case block_rows ts n of
        Inl e \<Rightarrow> Inl e
      | Inr tpart \<Rightarrow>
          (case borders g tpart of
             Inl e \<Rightarrow> Inl e
           | Inr tp \<Rightarrow>
               if length tp < 2 then Inl IndexError
               else Inr (py_join nl (tp[1 := col g (tp ! 1) (H3 g) False]))))"

definition split_parts :: "globals \<Rightarrow> string \<Rightarrow> int \<Rightarrow> int \<Rightarrow> error + string list list" where
  \<comment> \<open>the first loop of \<^verbatim>\<open>split_blocks\<close>: \<^verbatim>\<open>ts\<close>\<close>
  "split_parts g text_block w cols =
     collect (map (\<lambda>line. line_parts g cols (py_ljust line w)) (py_splitlines text_block))"

definition block_list :: "globals \<Rightarrow> string \<Rightarrow> int \<Rightarrow> int \<Rightarrow> error + string list" where
  \<comment> \<open>the second loop: \<^verbatim>\<open>blocks\<close>, one for every chunk of the first line\<close>
  "block_list g text_block w cols =
     (case split_parts g text_block w cols of
        Inl e \<Rightarrow> Inl e
      | Inr ts \<Rightarrow>
          (case ts of
             [] \<Rightarrow> Inl IndexError
           | t0 # _ \<Rightarrow> collect (map (block_text g ts) [0..<length t0])))"

definition split_blocks :: "globals \<Rightarrow> string \<Rightarrow> int \<Rightarrow> int \<Rightarrow> error + string" where
  \<comment> \<open>\<^verbatim>\<open>split_blocks(text_block, w, cols, part_fmter=borders)\<close>\<close>
  "split_blocks g text_block w cols =
     (case block_list g text_block w cols of
        Inl e \<Rightarrow> Inl e
      | Inr blocks \<Rightarrow> Inr (nl @ py_join nl blocks @ nl))"

definition table_out ::
  "globals \<Rightarrow> int \<Rightarrow> int \<Rightarrow> string \<Rightarrow> string \<Rightarrow> string list \<Rightarrow> error + string list" where
  \<comment> \<open>lines 738 to 773 of the table branch: \<open>tbl\<close> is \<^verbatim>\<open>tabulate\<close> of the coloured cells,
      \<open>table\<close> is \<^verbatim>\<open>tabulate\<close> of the cells without escapes, \<open>cols\<close> is \<^verbatim>\<open>term_columns\<close>\<close>
  "table_out g cols hir tbl table out =
     (let w = int (length (fst (py_split1 nl tbl))) in
      if w \<le> cols
      then (case borders g (py_splitlines tbl) of
              Inl e \<Rightarrow> Inl e
            | Inr t \<Rightarrow> Inr (out @ map (\<lambda>line. py_repeat left_indent hir @ line) t))
      else (case split_blocks g table w cols of
              Inl e \<Rightarrow> Inl e
            | Inr s \<Rightarrow> Inr (out @ [s])))"

definition demo_table :: string where
  "demo_table = ''-  ------\<newline>a  bbbbbb\<newline>c  d\<newline>-  ------''"

definition printable :: "string \<Rightarrow> string" where
  \<comment> \<open>the characters of a text that are not whitespace, in order\<close>
  "printable s = filter (\<lambda>c. \<not> is_space c) s"

definition nl_tail :: "string list \<Rightarrow> string" where
  \<comment> \<open>what follows the first line in \<^verbatim>\<open>'\n'.join(ls)\<close>\<close>
  "nl_tail ls = concat (map (\<lambda>y. nl @ y) ls)"

definition no_breaks :: "string \<Rightarrow> bool" where
  \<comment> \<open>a line: a text without a line break\<close>
  "no_breaks l = (CHR 0x0A \<notin> set l \<and> CHR 0x0D \<notin> set l)"

definition max_width :: "string list \<Rightarrow> nat" where
  \<comment> \<open>the largest width, escapes stripped, of the lines without a rule marker (0 when
      there is none)\<close>
  "max_width ls =
     foldr max (map (\<lambda>l. length (clean_ansi l)) (filter (\<lambda>l. hr_marker \<notin> set l) ls)) 0"

definition marker_offset :: "string \<Rightarrow> nat" where
  \<comment> \<open>the number of characters before the first rule marker\<close>
  "marker_offset s = length (takeWhile (\<lambda>c. c \<noteq> hr_marker) s)"

definition sized_rule :: "int \<Rightarrow> nat \<Rightarrow> string \<Rightarrow> string" where
  \<comment> \<open>a line with every rule marker replaced by \<open>w\<close> rule characters (none when \<open>w\<close>
      is negative), \<open>w\<close> being \<open>min(term_columns, mw) - 2 * indent\<close> for the offset of
      the marker in the line, escapes stripped\<close>
  "sized_rule term_columns mw l =
     concat (map (\<lambda>c. if c = hr_marker
                      then concat (replicate
                             (nat (min term_columns (int mw) - 2 * int (marker_offset (clean_ansi l))))
                             hr_sep)
                      else [c]) l)"

section \<open>Notions used in the statements\<close>

definition n_chunks :: "nat \<Rightarrow> nat \<Rightarrow> nat" where
  \<comment> \<open>the number of chunks after the first one, for a line of length \<open>len\<close> cut at \<open>c\<close> columns\<close>
  "n_chunks c len = (len - c + (c - 2) - 1) div (c - 2)"

definition chunk_list :: "nat \<Rightarrow> string \<Rightarrow> string list" where
  \<comment> \<open>the chunks after the first one, as plain column ranges\<close>
  "chunk_list c line =
     map (\<lambda>k. take (c - 2) (drop (c + k * (c - 2)) line)) [0..<n_chunks c (length line)]"

definition demo_rule_text :: "string list" where
  \<comment> \<open>a text of two lines, the second a rule indented by two, for the concrete instances\<close>
  "demo_rule_text = [''abcdefghijkl'', ''  '' @ [hr_marker] @ ''x'']"

definition column_range :: "nat \<Rightarrow> nat \<Rightarrow> string \<Rightarrow> string" where
  \<comment> \<open>the column range number \<open>n\<close> of a line cut at \<open>c\<close> columns: the first \<open>c\<close> columns,
      then ranges of \<open>c - 2\<close> columns\<close>
  "column_range c n line =
     (if n = 0 then take c line else take (c - 2) (drop (c + (n - 1) * (c - 2)) line))"

definition shown_range :: "globals \<Rightarrow> nat \<Rightarrow> nat \<Rightarrow> string \<Rightarrow> string" where
  \<comment> \<open>a column range as a block shows it: behind the continuation glyph, but for the first\<close>
  "shown_range g c n line =
     (if n = 0 then column_range c 0 line else cut_prefix g @ column_range c n line)"

definition bordered :: "globals \<Rightarrow> string list \<Rightarrow> string list" where
  \<comment> \<open>rows with their first and last row replaced by the border: the first row in low
      colour, its hyphens turned into rule characters\<close>
  "bordered g rows =
     map (\<lambda>i. if i = 0 \<or> Suc i = length rows then low g (py_replace (hd rows) ''-'' hr_sep)
              else rows ! i) [0..<length rows]"

definition framed :: "globals \<Rightarrow> string list \<Rightarrow> string list" where
  \<comment> \<open>the rows of a block as they are printed: bordered, and the second row in colour H3\<close>
  "framed g rows =
     map (\<lambda>i. if i = 1 then col g (bordered g rows ! 1) (H3 g) False else bordered g rows ! i)
       [0..<length rows]"

section \<open>Notions of the wrapping\<close>












definition demo_run :: string where
  \<comment> \<open>a run of two indented lines, for the concrete instances\<close>
  "demo_run = ''  hello world this\<newline>  is a well-known test''"

section \<open>Properties of the palette\<close>

lemma build_hl_fst: "fst (build_hl_by_token g) = None"
  by (simp add: build_hl_by_token_def code_hl_def globals_col_def)

lemma build_hl_frame:
  "snd (build_hl_by_token g) = g\<lparr>code_hl_tokens := code_hl_tokens (snd (build_hl_by_token g))\<rparr>"
  by (simp add: build_hl_by_token_def code_hl_def globals_col_def)

lemma set_theme_finally:
  "set_theme env catalog rnd theme for_code info g =
     (fst (set_theme_try env catalog rnd theme for_code info g),
      if for_code then snd (build_hl_by_token (snd (set_theme_try env catalog rnd theme for_code info g)))
      else snd (set_theme_try env catalog rnd theme for_code info g))"
proof -
  obtain e g' where r: "set_theme_try env catalog rnd theme for_code info g = (e, g')"
    by (cases "set_theme_try env catalog rnd theme for_code info g")
  obtain g'' where b: "build_hl_by_token g' = (None, g'')"
    using build_hl_fst [of g'] by (cases "build_hl_by_token g'") simp
  show ?thesis
    unfolding set_theme_def r by (simp add: b)
qed

lemma set_theme_try_hit_code:
  assumes "resolve_name env catalog rnd True theme = Inr (Some nm)"
    and "map_of catalog nm = Some t" and "t_ct t = Some cs" and "length cs = 5"
  shows "set_theme_try env catalog rnd theme True info g =
     (None, g\<lparr>stdout := (if info then stdout g @ [theme_msg g True nm t] else stdout g),
                   CH1 := cs ! 0, CH2 := cs ! 1, CH3 := cs ! 2, CH4 := cs ! 3, CH5 := cs ! 4\<rparr>)"
  using assms by (cases info) (simp_all add: set_theme_try_def is_empty_entry_def)

lemma set_theme_try_hit_text:
  assumes "resolve_name env catalog rnd False theme = Inr (Some nm)"
    and "map_of catalog nm = Some t" and "t_ct t = Some cs" and "length cs = 5"
  shows "set_theme_try env catalog rnd theme False info g =
     (None, g\<lparr>stdout := (if info then stdout g @ [theme_msg g False nm t] else stdout g),
                   H1 := cs ! 0, H2 := cs ! 1, H3 := cs ! 2, H4 := cs ! 3, H5 := cs ! 4\<rparr>)"
  using assms by (cases info) (simp_all add: set_theme_try_def is_empty_entry_def)

lemma set_theme_try_miss:
  assumes "resolve_name env catalog rnd for_code theme = Inr None \<or>
     (resolve_name env catalog rnd for_code theme = Inr (Some nm) \<and>
      (map_of catalog nm = None \<or>
       (map_of catalog nm = Some t \<and>
        (is_empty_entry t \<or> (t_ct t = Some cs \<and> length cs \<noteq> 5)))))"
  shows "set_theme_try env catalog rnd theme for_code info g = (None, g)"
  using assms by (auto simp add: set_theme_try_def is_empty_entry_def)

lemma set_theme_try_raises:
  assumes "resolve_name env catalog rnd for_code theme = Inr (Some nm)"
    and "map_of catalog nm = Some t" and "\<not> is_empty_entry t" and "t_ct t = None"
  shows "set_theme_try env catalog rnd theme for_code info g = (Some TypeError, g)"
  using assms by (simp add: set_theme_try_def)

lemma five_list:
  assumes "length cs = 5"
  shows "[cs ! 0, cs ! 1, cs ! 2, cs ! 3, cs ! 4] = (cs :: int list)"
proof -
  from assms have "length cs = Suc (Suc (Suc (Suc (Suc 0))))" by simp
  then obtain a b c d e where "cs = [a, b, c, d, e]"
    by (auto simp add: length_Suc_conv)
  then show ?thesis by simp
qed

lemma set_theme_hit_code:
  assumes "resolve_name env catalog rnd True theme = Inr (Some nm)"
    and "map_of catalog nm = Some t" and "t_ct t = Some cs" and "length cs = 5"
  shows "fst (set_theme env catalog rnd theme True info g) = None \<and>
     code_colors (snd (set_theme env catalog rnd theme True info g)) = cs \<and>
     heading_colors (snd (set_theme env catalog rnd theme True info g)) = heading_colors g"
proof -
  let ?g1 = "g\<lparr>stdout := (if info then stdout g @ [theme_msg g True nm t] else stdout g),
                   CH1 := cs ! 0, CH2 := cs ! 1, CH3 := cs ! 2, CH4 := cs ! 3, CH5 := cs ! 4\<rparr>"
  have o: "set_theme_try env catalog rnd theme True info g = (None, ?g1)"
    using assms by (rule set_theme_try_hit_code)
  have l: "[cs ! 0, cs ! 1, cs ! 2, cs ! 3, cs ! 4] = cs" using assms(4) by (rule five_list)
  have s: "snd (set_theme env catalog rnd theme True info g) = snd (build_hl_by_token ?g1)"
    by (simp only: set_theme_finally o snd_conv if_True)
  have f: "fst (set_theme env catalog rnd theme True info g) = None"
    by (simp only: set_theme_finally o fst_conv)
  have c: "code_colors (snd (build_hl_by_token ?g1)) = [cs ! 0, cs ! 1, cs ! 2, cs ! 3, cs ! 4]"
    by (subst build_hl_frame) (simp add: code_colors_def)
  have h: "heading_colors (snd (build_hl_by_token ?g1)) = heading_colors g"
    by (subst build_hl_frame) (simp add: heading_colors_def)
  show ?thesis by (simp only: f s c h l)
qed

lemma set_theme_hit_text:
  assumes "resolve_name env catalog rnd False theme = Inr (Some nm)"
    and "map_of catalog nm = Some t" and "t_ct t = Some cs" and "length cs = 5"
  shows "fst (set_theme env catalog rnd theme False info g) = None \<and>
     heading_colors (snd (set_theme env catalog rnd theme False info g)) = cs \<and>
     code_colors (snd (set_theme env catalog rnd theme False info g)) = code_colors g"
proof -
  let ?g1 = "g\<lparr>stdout := (if info then stdout g @ [theme_msg g False nm t] else stdout g),
                   H1 := cs ! 0, H2 := cs ! 1, H3 := cs ! 2, H4 := cs ! 3, H5 := cs ! 4\<rparr>"
  have o: "set_theme_try env catalog rnd theme False info g = (None, ?g1)"
    using assms by (rule set_theme_try_hit_text)
  have l: "[cs ! 0, cs ! 1, cs ! 2, cs ! 3, cs ! 4] = cs" using assms(4) by (rule five_list)
  have s: "snd (set_theme env catalog rnd theme False info g) = ?g1"
    by (simp only: set_theme_finally o snd_conv if_False)
  have f: "fst (set_theme env catalog rnd theme False info g) = None"
    by (simp only: set_theme_finally o fst_conv)
  have h: "heading_colors ?g1 = [cs ! 0, cs ! 1, cs ! 2, cs ! 3, cs ! 4]"
    by (simp add: heading_colors_def)
  have c: "code_colors ?g1 = code_colors g"
    by (simp add: code_colors_def)
  show ?thesis by (simp only: f s c h l)
qed

lemma set_theme_miss:
  assumes "set_theme_try env catalog rnd theme for_code info g = (None, g)"
  shows "fst (set_theme env catalog rnd theme for_code info g) = None \<and>
      (snd (set_theme env catalog rnd theme for_code info g))
         \<lparr>code_hl_tokens := code_hl_tokens g\<rparr> = g"
proof -
  have m: "(snd (build_hl_by_token g))\<lparr>code_hl_tokens := code_hl_tokens g\<rparr> = g"
    by (subst build_hl_frame) simp
  show ?thesis
    unfolding set_theme_finally assms using m by simp
qed

text \<open>
  Where \<^verbatim>\<open>set_theme\<close> does what is asked of it: when the name resolves to a catalogue
  entry whose \<^verbatim>\<open>ct\<close> list has exactly five entries, it returns normally and the five
  heading colours (the five code colours when \<^verbatim>\<open>for_code\<close> is set) are those entries in
  order, the other five being unchanged; when there is no name, no entry, an empty
  entry, or a list of another length, it returns normally and nothing but the highlight
  map differs from the state before (no colour changes, nothing is printed).
\<close>

lemma set_theme_five_or_unchanged:
  "(resolve_name env catalog rnd for_code theme = Inr (Some nm) \<and>
    map_of catalog nm = Some t \<and> t_ct t = Some cs \<and> length cs = 5 \<longrightarrow>
      fst (set_theme env catalog rnd theme for_code info g) = None \<and>
      (if for_code
       then code_colors (snd (set_theme env catalog rnd theme for_code info g)) = cs \<and>
            heading_colors (snd (set_theme env catalog rnd theme for_code info g)) = heading_colors g
       else heading_colors (snd (set_theme env catalog rnd theme for_code info g)) = cs \<and>
            code_colors (snd (set_theme env catalog rnd theme for_code info g)) = code_colors g)) \<and>
   ((resolve_name env catalog rnd for_code theme = Inr None \<or>
     (resolve_name env catalog rnd for_code theme = Inr (Some nm) \<and>
      (map_of catalog nm = None \<or>
       (map_of catalog nm = Some t \<and>
        (is_empty_entry t \<or> (t_ct t = Some cs \<and> length cs \<noteq> 5)))))) \<longrightarrow>
      fst (set_theme env catalog rnd theme for_code info g) = None \<and>
      (snd (set_theme env catalog rnd theme for_code info g))
         \<lparr>code_hl_tokens := code_hl_tokens g\<rparr> = g)"
proof (rule conjI; rule impI)
  assume a: "resolve_name env catalog rnd for_code theme = Inr (Some nm) \<and>
    map_of catalog nm = Some t \<and> t_ct t = Some cs \<and> length cs = 5"
  show "fst (set_theme env catalog rnd theme for_code info g) = None \<and>
      (if for_code
       then code_colors (snd (set_theme env catalog rnd theme for_code info g)) = cs \<and>
            heading_colors (snd (set_theme env catalog rnd theme for_code info g)) = heading_colors g
       else heading_colors (snd (set_theme env catalog rnd theme for_code info g)) = cs \<and>
            code_colors (snd (set_theme env catalog rnd theme for_code info g)) = code_colors g)"
  proof (cases for_code)
    case True
    with a have "resolve_name env catalog rnd True theme = Inr (Some nm)" by simp
    from set_theme_hit_code [OF this, of t cs info g] a True show ?thesis by simp
  next
    case False
    with a have "resolve_name env catalog rnd False theme = Inr (Some nm)" by simp
    from set_theme_hit_text [OF this, of t cs info g] a False show ?thesis by simp
  qed
next
  assume "resolve_name env catalog rnd for_code theme = Inr None \<or>
     (resolve_name env catalog rnd for_code theme = Inr (Some nm) \<and>
      (map_of catalog nm = None \<or>
       (map_of catalog nm = Some t \<and>
        (is_empty_entry t \<or> (t_ct t = Some cs \<and> length cs \<noteq> 5)))))"
  then have "set_theme_try env catalog rnd theme for_code info g = (None, g)"
    by (rule set_theme_try_miss)
  then show "fst (set_theme env catalog rnd theme for_code info g) = None \<and>
      (snd (set_theme env catalog rnd theme for_code info g))
         \<lparr>code_hl_tokens := code_hl_tokens g\<rparr> = g"
    by (rule set_theme_miss)
qed

text \<open>
  Where it does not: an entry that holds keys but no \<^verbatim>\<open>ct\<close> list makes
  \<^verbatim>\<open>len(t.get('ct'))\<close> raise, whatever else the call was given.
\<close>

lemma set_theme_without_ct:
  assumes "resolve_name env catalog rnd for_code theme = Inr (Some nm)"
    and "map_of catalog nm = Some t" and "\<not> is_empty_entry t" and "t_ct t = None"
  shows "fst (set_theme env catalog rnd theme for_code info g) = Some TypeError"
  by (simp only: set_theme_finally set_theme_try_raises [OF assms] fst_conv)

text \<open>
  C1. The guard \<^verbatim>\<open>if not t or len(t.get('ct')) != 5\<close>, with its comment
  \<^verbatim>\<open>leave defaults\<close>, is there to skip every entry that does not give five colours. It
  misses the entry that has a name but no colour list: requested by its name, that entry
  makes \<^verbatim>\<open>set_theme\<close> raise TypeError. And with no theme requested and an empty
  catalogue, the random draw \<^verbatim>\<open>randint(0, -1)\<close> raises ValueError. In both calls the
  colours stay as they were, but the call does not return.
\<close>

theorem set_theme_entry_without_ct_raises:
  "fst (set_theme Map.empty [(''x'', \<lparr>t_name = Some ''X'', t_ct = None, t_keys = []\<rparr>)] 0
          (Some ''x'') False False default_globals) = Some TypeError
   \<and> snd (set_theme Map.empty [(''x'', \<lparr>t_name = Some ''X'', t_ct = None, t_keys = []\<rparr>)] 0
          (Some ''x'') False False default_globals) = default_globals
   \<and> fst (set_theme Map.empty [] 0 None False False default_globals) = Some ValueError"
  by (simp add: set_theme_def set_theme_try_def resolve_name_def first_env_def
      is_empty_entry_def map_filter_simps)

subsection \<open>The highlight map\<close>

lemma build_hl_tokens:
  assumes "have_pygments g"
  shows "snd (build_hl_by_token g) = g\<lparr>code_hl_tokens :=
      AList.update ''Generic'' (CH2 g) (AList.update ''Operator'' (CH5 g)
        (AList.update ''Number'' (CH4 g) (AList.update ''Error'' (col_R g)
          (AList.update ''String'' (CH4 g) (AList.update ''Comment'' (col_L g)
            (AList.update ''Name'' (CH1 g) (AList.update ''Keyword'' (CH3 g)
              (code_hl_tokens g))))))))\<rparr>"
  using assms by (simp add: build_hl_by_token_def code_hl_def globals_col_def)

lemma build_hl_consistent:
  assumes "have_pygments g"
  shows "hl_consistent (snd (build_hl_by_token g))"
  unfolding hl_consistent_def build_hl_tokens [OF assms] code_hl_def list.pred_inject fst_conv snd_conv
  by (intro conjI TrueI) (simp_all add: update_conv' globals_col_def)

lemma set_theme_try_pygments:
  "have_pygments (snd (set_theme_try env catalog rnd theme for_code info g)) = have_pygments g"
  by (simp add: set_theme_try_def Let_def split: sum.splits option.splits)

text \<open>
  C10, as amended. When pygments was imported (\<^verbatim>\<open>have_pygments\<close>), every call of
  \<^verbatim>\<open>set_theme\<close> with \<^verbatim>\<open>for_code\<close> set leaves the highlight map consistent with the
  colours active on return, whatever the theme resolution did (also when it raised).
\<close>

theorem set_theme_rebuilds_hl_map:
  assumes "have_pygments g"
  shows "hl_consistent (snd (set_theme env catalog rnd theme True info g))"
proof -
  have "have_pygments (snd (set_theme_try env catalog rnd theme True info g))"
    using assms by (simp only: set_theme_try_pygments)
  from build_hl_consistent [OF this] show ?thesis
    by (simp only: set_theme_finally snd_conv if_True)
qed

theorem set_theme_rebuilds_hl_map_witness:
  "have_pygments default_globals \<and>
   hl_consistent (snd (set_theme Map.empty [] 0 (Some ''nowhere'') True False default_globals))"
proof -
  have 1: "have_pygments default_globals" by (simp add: default_globals_def)
  from 1 set_theme_rebuilds_hl_map [OF 1] show ?thesis by (rule conjI)
qed

text \<open>
  Without pygments \<^verbatim>\<open>build_hl_by_token\<close> returns at once and the map stays empty.
\<close>

theorem set_theme_no_pygments_counterexample:
  "\<not> hl_consistent (snd (set_theme Map.empty [] 0 (Some ''nowhere'') True False
      (default_globals\<lparr>have_pygments := False\<rparr>)))"
proof -
  have "snd (set_theme Map.empty [] 0 (Some ''nowhere'') True False
      (default_globals\<lparr>have_pygments := False\<rparr>)) = default_globals\<lparr>have_pygments := False\<rparr>"
    by (simp add: set_theme_def set_theme_try_def resolve_name_def build_hl_by_token_def)
  then show ?thesis
    by (simp add: hl_consistent_def code_hl_def default_globals_def globals_col_def)
qed

section \<open>Properties of the reflow\<close>


text \<open>
  C6. \<^verbatim>\<open>rewrap\<close> returns its text unchanged when the tag is \<^verbatim>\<open>code\<close>, when the text is
  no longer than the available width (the terminal columns minus the length of indent
  plus prefix, at least 5), and when it starts with the byte 02 and ends with the byte 03.
\<close>

theorem rewrap_passthrough:
  assumes "tag = ''code'' \<or> int (length t) \<le> max (term_columns - int (length ind + length pref)) 5
           \<or> (prefix [CHR 0x02] t \<and> suffix [CHR 0x03] t)"
  shows "rewrap wsplit term_columns tag t ind pref = Inr t"
  using assms by (auto simp add: rewrap_def avail_cols_def Let_def)

theorem rewrap_passthrough_witness:
  "rewrap wordsep_split 10 ''code'' ''a long line of source code'' [] [] = Inr ''a long line of source code''
   \<and> rewrap wordsep_split 10 ''p'' ''short'' ''  '' ''- '' = Inr ''short''
   \<and> rewrap wordsep_split 10 ''p'' (CHR 0x02 # ''wzxhzdk:0'' @ [CHR 0x03]) [] []
       = Inr (CHR 0x02 # ''wzxhzdk:0'' @ [CHR 0x03])"
proof -
  have 1: "rewrap wordsep_split 10 ''code'' ''a long line of source code'' [] [] = Inr ''a long line of source code''"
    by (rule rewrap_passthrough) simp
  have 2: "rewrap wordsep_split 10 ''p'' ''short'' ''  '' ''- '' = Inr ''short''"
    by (rule rewrap_passthrough) simp
  have 3: "rewrap wordsep_split 10 ''p'' (CHR 0x02 # ''wzxhzdk:0'' @ [CHR 0x03]) [] []
       = Inr (CHR 0x02 # ''wzxhzdk:0'' @ [CHR 0x03])"
    by (rule rewrap_passthrough) (simp add: suffix_def)
  from 1 2 3 show ?thesis by simp
qed

section \<open>Properties of the hr formatter\<close>

lemma str_int_digits:
  "str_int 1 = ''1''" "str_int 2 = ''2''" "str_int 3 = ''3''" "str_int 4 = ''4''" "str_int 5 = ''5''"
  "str_int 6 = ''6''"
  by (simp_all add: str_int_def str_nat.simps digit_char_def)

lemma heading_col_1_5:
  "heading_col g 1 = Inr (H1 g)" "heading_col g 2 = Inr (H2 g)" "heading_col g 3 = Inr (H3 g)"
  "heading_col g 4 = Inr (H4 g)" "heading_col g 5 = Inr (H5 g)" "heading_col g 6 = Inl KeyError"
  by (simp_all add: heading_col_def str_int_digits globals_col_def)

text \<open>
  C4, as amended. For an \<^verbatim>\<open>hr\<close> node at hierarchy level \<open>hir\<close> from 1 to 5 the
  formatter appends the rule placeholder whose end glyphs have heading colour number
  \<open>hir\<close> (not rotated).
\<close>

theorem formatter_hr_color:
  assumes "1 \<le> hir" and "hir \<le> 5"
  shows "formatter_hr g hir out = Inr (out @ [hr_text g hir (heading_colors g ! nat (hir - 1))])"
proof -
  from assms have "hir = 1 \<or> hir = 2 \<or> hir = 3 \<or> hir = 4 \<or> hir = 5" by arith
  then show ?thesis
    by (elim disjE) (simp_all add: formatter_hr_def hr_def heading_col_1_5 heading_colors_def)
qed

theorem formatter_hr_color_witness:
  "formatter_hr default_globals 1 [] = Inr [hr_text default_globals 1 231]"
proof -
  have "heading_colors default_globals ! nat (1 - 1) = 231"
    by (simp add: heading_colors_def default_globals_def)
  with formatter_hr_color [of 1 default_globals "[]"] show ?thesis by simp
qed

text \<open>
  At level 1 the claim asks for heading colour 5 (65 in the default palette); the code
  takes colour 1 (231). At level 6 the claim asks for colour 5; the code raises KeyError.
\<close>

theorem formatter_hr_counterexample:
  "rotated_heading 1 = 5 \<and> heading_col default_globals (rotated_heading 1) = Inr 65
   \<and> formatter_hr default_globals 1 [] = Inr [hr_text default_globals 1 231]
   \<and> hr_text default_globals 1 231 \<noteq> hr_text default_globals 1 65
   \<and> rotated_heading 6 = 5 \<and> formatter_hr default_globals 6 [] = Inl KeyError"
proof -
  have a: "rotated_heading 1 = 5" "rotated_heading 6 = 5" by (simp_all add: rotated_heading_def)
  have b: "heading_col default_globals 5 = Inr 65"
    by (simp add: heading_col_1_5 default_globals_def)
  have c: "formatter_hr default_globals 1 [] = Inr [hr_text default_globals 1 231]"
    by (simp add: formatter_hr_def hr_def heading_col_1_5 default_globals_def)
  have d: "formatter_hr default_globals 6 [] = Inl KeyError"
    by (simp add: formatter_hr_def hr_def heading_col_1_5)
  have e: "hr_text default_globals 1 231 \<noteq> hr_text default_globals 1 65"
    by code_simp
  from a b c d e show ?thesis by simp
qed

section \<open>Properties of the end of main\<close>

text \<open>
  C8, as amended. With the no-colors flag \<^verbatim>\<open>main\<close> returns the coloured result without
  its last newline and with every sequence \<^verbatim>\<open>ESC ... m\<close> removed (and raises when the
  coloured run raises).
\<close>

theorem main_no_colors:
  "main_return term_columns True ansi =
     (case main_return term_columns False ansi of
        Inl e \<Rightarrow> Inl e
      | Inr s \<Rightarrow> Inr (clean_ansi (butlast s)))"
  by (simp add: main_return_def nl_def Let_def butlast_append split: sum.splits)

text \<open>
  The coloured result ends with one newline more, so stripping it does not give the
  result of the no-colors run.
\<close>

theorem main_no_colors_counterexample:
  "main_return 80 True ''ab'' = Inr ''ab\<newline>''
   \<and> main_return 80 False ''ab'' = Inr ''ab\<newline>\<newline>''
   \<and> clean_ansi ''ab\<newline>\<newline>'' \<noteq> ''ab\<newline>''"
  by (simp add: main_return_def set_hr_widths_def hr_marker_def nl_def)

section \<open>Properties of str.replace\<close>

lemma repl_via_marker:
  "m \<notin> set t \<Longrightarrow> repl 0 [m] new (repl k old [m] t) = repl k old new t"
proof (induction t arbitrary: k)
  case Nil
  then show ?case by simp
next
  case (Cons c cs)
  then show ?case by (cases k) auto
qed

lemma repl_same: "old \<noteq> [] \<Longrightarrow> repl k old old t = drop k t"
proof (induction t arbitrary: k)
  case Nil
  then show ?case by simp
next
  case (Cons c cs)
  show ?case
  proof (cases k)
    case (Suc j)
    then show ?thesis using Cons by simp
  next
    case 0
    show ?thesis
    proof (cases "prefix old (c # cs)")
      case False
      then show ?thesis using 0 Cons by simp
    next
      case True
      then obtain r where r: "c # cs = old @ r" by (auto simp add: prefix_def)
      with Cons.prems obtain o' where o': "old = c # o'" by (cases old) auto
      with r have cs: "cs = o' @ r" by simp
      have "repl 0 old old (c # cs) = old @ repl (length old - 1) old old cs"
        using True by simp
      also have "repl (length old - 1) old old cs = drop (length old - 1) cs"
        using Cons.IH [OF Cons.prems] .
      also have "drop (length old - 1) cs = r" by (simp add: o' cs)
      finally show ?thesis using 0 r by simp
    qed
  qed
qed

lemma set_repl: "set (repl k old new t) \<subseteq> set t \<union> set new"
proof (induction t arbitrary: k)
  case Nil
  then show ?case by simp
next
  case (Cons c cs)
  show ?case
  proof (cases k)
    case 0
    then show ?thesis using Cons [of 0] Cons [of "length old - 1"] by auto
  next
    case (Suc j)
    then show ?thesis using Cons [of j] by auto
  qed
qed

lemma set_py_replace: "old \<noteq> [] \<Longrightarrow> set (py_replace t old new) \<subseteq> set t \<union> set new"
  by (simp add: py_replace_def set_repl)

lemma py_replace_roundtrip:
  assumes "m \<notin> set t" and "old \<noteq> []"
  shows "py_replace (py_replace t old [m]) [m] old = t"
  using assms by (simp add: py_replace_def repl_via_marker repl_same)

section \<open>Properties of the inline encoding\<close>

lemma tag_roundtrip:
  assumes "start \<notin> set t" and "fin \<notin> set t" and "start \<noteq> fin"
  shows "decode_tag (tg, start, fin) (encode_tag (tg, start, fin) t) = t"
proof -
  let ?t1 = "py_replace t (''<'' @ tg @ ''>'') [start]"
  have s1: "set ?t1 \<subseteq> set t \<union> {start}"
    using set_py_replace [of "''<'' @ tg @ ''>''" t "[start]"] by simp
  then have "fin \<notin> set ?t1" using assms by auto
  then have a: "py_replace (py_replace ?t1 (''</'' @ tg @ ''>'') [fin]) [fin] (''</'' @ tg @ ''>'') = ?t1"
    by (rule py_replace_roundtrip) simp
  have b: "py_replace ?t1 [start] (''<'' @ tg @ ''>'') = t"
    using assms(1) by (rule py_replace_roundtrip) simp
  show ?thesis
    unfolding decode_tag_def encode_tag_def prod.case by (simp only: a b)
qed

lemma set_encode_tag:
  "set (encode_tag (tg, start, fin) t) \<subseteq> set t \<union> {start, fin}"
proof -
  let ?t1 = "py_replace t (''<'' @ tg @ ''>'') [start]"
  have s1: "set ?t1 \<subseteq> set t \<union> {start}"
    using set_py_replace [of "''<'' @ tg @ ''>''" t "[start]"] by simp
  have s2: "set (py_replace ?t1 (''</'' @ tg @ ''>'') [fin]) \<subseteq> set ?t1 \<union> {fin}"
    using set_py_replace [of "''</'' @ tg @ ''>''" ?t1 "[fin]"] by simp
  from s1 s2 show ?thesis unfolding encode_tag_def prod.case by auto
qed

lemma notin_encode_tag:
  assumes "c \<notin> set t" and "c \<noteq> start" and "c \<noteq> fin"
  shows "c \<notin> set (encode_tag (tg, start, fin) t)"
proof
  assume "c \<in> set (encode_tag (tg, start, fin) t)"
  with set_encode_tag [of tg start fin t] have "c \<in> set t \<union> {start, fin}" by (rule subsetD)
  with assms show False by simp
qed

text \<open>
  C9, as amended. On a text that holds none of the six marker bytes, whatever its
  nesting of the three inline tags, encoding the tags into markers and then decoding
  the markers (every marker replaced by the tag it stands for) gives the text back.
\<close>

theorem encode_inline_roundtrip:
  assumes "set t \<inter> marker_bytes = {}"
  shows "markers_to_tags (encode_inline t) = t"
proof -
  let ?c = "(''code'', code_start, code_end)"
  let ?s = "(''strong'', stng_start, stng_end)"
  let ?e = "(''em'', emph_start, emph_end)"
  let ?t1 = "encode_tag ?c t"
  let ?t2 = "encode_tag ?s ?t1"
  have m: "code_start \<notin> set t" "code_end \<notin> set t" "stng_start \<notin> set t"
    "stng_end \<notin> set t" "emph_start \<notin> set t" "emph_end \<notin> set t"
    using assms by (auto simp add: marker_bytes_def)
  have d: "code_start \<noteq> stng_start" "code_start \<noteq> stng_end" "code_start \<noteq> emph_start"
    "code_start \<noteq> emph_end" "code_end \<noteq> stng_start" "code_end \<noteq> stng_end"
    "code_end \<noteq> emph_start" "code_end \<noteq> emph_end" "stng_start \<noteq> emph_start"
    "stng_start \<noteq> emph_end" "stng_end \<noteq> emph_start" "stng_end \<noteq> emph_end"
    "code_start \<noteq> code_end" "stng_start \<noteq> stng_end" "emph_start \<noteq> emph_end"
    by (simp_all add: code_start_def code_end_def stng_start_def stng_end_def
        emph_start_def emph_end_def)
  have e3: "decode_tag ?e (encode_tag ?e ?t2) = ?t2"
  proof (rule tag_roundtrip)
    show "emph_start \<notin> set ?t2" by (intro notin_encode_tag m d d [symmetric])
    show "emph_end \<notin> set ?t2" by (intro notin_encode_tag m d d [symmetric])
  qed (rule d)
  have e2: "decode_tag ?s ?t2 = ?t1"
  proof (rule tag_roundtrip)
    show "stng_start \<notin> set ?t1" by (intro notin_encode_tag m d d [symmetric])
    show "stng_end \<notin> set ?t1" by (intro notin_encode_tag m d d [symmetric])
  qed (rule d)
  have e1: "decode_tag ?c ?t1 = t"
  proof (rule tag_roundtrip)
    show "code_start \<notin> set t" using m by simp
    show "code_end \<notin> set t" using m by simp
  qed (rule d)
  have "markers_to_tags (encode_inline t)
      = decode_tag ?c (decode_tag ?s (decode_tag ?e (encode_tag ?e ?t2)))"
    by (simp add: markers_to_tags_def encode_inline_def inline_tags_def)
  then show ?thesis by (simp only: e3 e2 e1)
qed

theorem encode_inline_roundtrip_witness:
  "markers_to_tags (encode_inline ''a <em>b <strong>c</strong></em> <code>d</code>'')
     = ''a <em>b <strong>c</strong></em> <code>d</code>''"
proof -
  have "set ''a <em>b <strong>c</strong></em> <code>d</code>'' \<inter> marker_bytes = {}"
    by (simp add: marker_bytes_def code_start_def code_end_def stng_start_def stng_end_def
        emph_start_def emph_end_def)
  then show ?thesis by (rule encode_inline_roundtrip)
qed

text \<open>
  A text that already holds a marker byte does not come back: the encoding leaves the
  byte as it is, and it is read as the tag it stands for.
\<close>

theorem encode_inline_marker_counterexample:
  "encode_inline (''a'' @ [emph_start]) = ''a'' @ [emph_start]
   \<and> markers_to_tags (encode_inline (''a'' @ [emph_start])) = ''a<em>''
   \<and> markers_to_tags (encode_inline (''a'' @ [emph_start])) \<noteq> ''a'' @ [emph_start]"
  by code_simp

section \<open>Properties of the admonition step\<close>

text \<open>
  C7. The keyword of \<^verbatim>\<open>!!!  x\<close> (two spaces) is the empty string, which is not in the
  table; the code registers it and then raises ValueError at \<^verbatim>\<open>t.split(k, 1)\<close>.
\<close>

theorem admon_empty_keyword_raises:
  "admon_step default_admons ''!!!  x'' = Inl ValueError"
  by code_simp

lemma py_split1_found:
  assumes "sep \<noteq> []"
  shows "\<exists>a b. py_split1 sep (xs @ sep @ ys) = (a, Some b)"
proof (induction xs)
  case Nil
  from assms obtain c r where "sep = c # r" by (cases sep) auto
  then show ?case by simp
next
  case (Cons x xs)
  then obtain a b where "py_split1 sep (xs @ sep @ ys) = (a, Some b)" by auto
  then show ?case by simp
qed

lemma py_split1_prefix: "prefix (fst (py_split1 sep s)) s"
  by (induction s) (auto split: prod.splits)

text \<open>
  A keyword that is not empty and not in the table is registered with the colour of
  the first entry, and the step returns the admonition prefixes.
\<close>

lemma admon_unknown_keyword:
  assumes "prefix ''!!! '' t"
    and "find (\<lambda>k. prefix k (drop 4 t)) (map fst (kv # adm)) = None"
    and "k = fst (py_split1 '' '' (drop 4 t))" and "k \<noteq> []"
  shows "\<exists>b. admon_step (kv # adm) t =
     Inr \<lparr>ar_admons = AList.update k (snd kv) (kv # adm), ar_pref = admon_bar @ py_capitalize k,
          ar_body_pref = admon_bar, ar_admon = k, ar_text = b\<rparr>"
proof -
  from assms(1) have t: "t = ''!!! '' @ drop 4 t" by (auto simp add: prefix_def)
  from py_split1_prefix [of "'' ''" "drop 4 t"] assms(3) obtain r where r: "drop 4 t = k @ r"
    by (auto simp add: prefix_def)
  from py_split1_found [OF assms(4), of "''!!! ''" r] t r
  obtain a b where ab: "py_split1 k t = (a, Some b)" by metis
  show ?thesis
    using assms(1,2,4) ab assms(3) [symmetric]
    by (simp add: admon_step_def Let_def del: find.simps)
qed

section \<open>Properties of the table splitting\<close>

lemma py_slice_nonneg:
  assumes "0 \<le> a" and "a \<le> b"
  shows "py_slice s a b = take (nat b - nat a) (drop (nat a) s)"
proof (cases "nat a \<le> length s")
  case True
  with assms have "norm_index (length s) a = nat a" by (simp add: norm_index_def)
  moreover from assms have "norm_index (length s) b = min (nat b) (length s)"
    by (simp add: norm_index_def)
  moreover have "take (min (nat b) (length s) - nat a) (drop (nat a) s)
      = take (nat b - nat a) (drop (nat a) s)"
  proof (cases "nat b \<le> length s")
    case True
    then show ?thesis by (simp add: min_def)
  next
    case False
    then show ?thesis by (simp add: min_def)
  qed
  ultimately show ?thesis by (simp add: py_slice_def Let_def)
next
  case False
  with assms show ?thesis by (simp add: py_slice_def Let_def norm_index_def)
qed

lemma py_slice_nat: "py_slice s (int i) (int i + int n) = take n (drop i s)"
proof -
  have "nat (int i + int n) - nat (int i) = n" by (simp add: nat_int_add)
  with py_slice_nonneg [of "int i" "int i + int n" s] show ?thesis by simp
qed

lemma concat_chunks:
  "concat (map (\<lambda>k. take s (drop (a + k * s) xs)) [0..<m]) = take (m * s) (drop a xs)"
proof (induction m)
  case 0
  then show ?case by simp
next
  case (Suc m)
  have "take (m * s + s) (drop a xs) = take (m * s) (drop a xs) @ take s (drop (m * s) (drop a xs))"
    by (rule take_add)
  moreover have "Suc m * s = m * s + s" by simp
  moreover have "drop (m * s) (drop a xs) = drop (a + m * s) xs" by (simp add: add.commute)
  moreover have "concat (map (\<lambda>k. take s (drop (a + k * s) xs)) [0..<Suc m])
      = concat (map (\<lambda>k. take s (drop (a + k * s) xs)) [0..<m]) @ take s (drop (a + m * s) xs)"
    by simp
  ultimately show ?case using Suc by (simp only:)
qed

lemma line_cuts_chunks:
  assumes "3 \<le> cols" and "cols < int (length line)"
  shows "line_cuts cols line =
     Inr (take (nat cols) line #
          map (\<lambda>k. take (nat cols - 2) (drop (nat cols + k * (nat cols - 2)) line))
              [0..<n_chunks (nat cols) (length line)])"
proof -
  define c where "c = nat cols"
  define s where "s = c - 2"
  have cols: "cols = int c" and c3: "3 \<le> c" and cl: "c < length line"
    using assms by (auto simp add: c_def)
  have s: "cols - 2 = int s" "0 < s" "int c - 2 = int s" using c3 by (auto simp add: s_def cols)
  have cnt: "nat ((int (length line) - cols + (cols - 2) - 1) div (cols - 2))
      = n_chunks c (length line)"
  proof -
    have "int (length line) - cols + (cols - 2) - 1 = int (length line - c + (c - 2) - 1)"
      using c3 cl by (simp add: cols)
    moreover have "cols - 2 = int (c - 2)" using c3 by (simp add: cols)
    ultimately show ?thesis
      by (simp add: n_chunks_def zdiv_int [symmetric] del: of_nat_diff of_nat_add)
  qed
  have r: "py_range cols (int (length line)) (cols - 2)
      = Inr (map (\<lambda>k. cols + int k * (cols - 2)) [0..<n_chunks c (length line)])"
  proof -
    have z: "(cols - 2 = 0) = False" "(0 < cols - 2) = True" using assms(1) by simp_all
    show ?thesis by (simp only: py_range_def z if_False if_True cnt)
  qed
  have first: "py_slice line 0 cols = take c line"
    using py_slice_nonneg [of 0 cols line] assms(1) by (simp add: c_def)
  have each: "py_slice line (cols + int k * (cols - 2)) (cols + int k * (cols - 2) + (cols - 2))
      = take s (drop (c + k * s) line)" for k
  proof -
    have a: "cols + int k * int s = int (c + k * s)" by (simp add: cols)
    show ?thesis unfolding s(1) a by (rule py_slice_nat)
  qed
  have mp: "map (\<lambda>i. py_slice line i (i + (cols - 2)))
        (map (\<lambda>k. cols + int k * (cols - 2)) [0..<n_chunks c (length line)])
      = map (\<lambda>k. take s (drop (c + k * s) line)) [0..<n_chunks c (length line)]"
    by (simp only: map_map o_def each)
  show ?thesis
    unfolding line_cuts_def r sum.case first mp by (simp only: c_def s_def)
qed

lemma n_chunks_pos:
  assumes "3 \<le> c" and "c < len"
  shows "0 < n_chunks c len"
proof -
  have "c - 2 \<le> len - c + (c - 2) - 1" using assms by simp
  moreover have "0 < c - 2" using assms by simp
  ultimately show ?thesis unfolding n_chunks_def by (simp add: div_greater_zero_iff)
qed

lemma n_chunks_cover:
  assumes "3 \<le> c" and "c < len"
  shows "len - c \<le> n_chunks c len * (c - 2)"
proof -
  define s where "s = c - 2"
  have s: "0 < s" using assms by (simp add: s_def)
  define x where "x = len - c + s - 1"
  have "x = (x div s) * s + x mod s" by simp
  moreover have "x mod s < s" using s by simp
  ultimately have "x < (x div s) * s + s" by linarith
  then have "len - c \<le> (x div s) * s" using s by (simp add: x_def)
  then show ?thesis by (simp add: n_chunks_def x_def s_def)
qed

lemma n_chunks_last:
  assumes "3 \<le> c" and "c < len" and "k < n_chunks c len"
  shows "c + k * (c - 2) < len"
proof -
  define s where "s = c - 2"
  have s: "0 < s" using assms by (simp add: s_def)
  define x where "x = len - c + s - 1"
  from assms(3) have "Suc k \<le> x div s" by (simp add: n_chunks_def x_def s_def)
  then have "Suc k * s \<le> (x div s) * s" by (rule mult_le_mono1)
  also have "\<dots> \<le> x" by simp
  finally have "k * s + s \<le> len - c + s - 1" by (simp add: x_def)
  then show ?thesis using assms s by (simp add: s_def)
qed

lemma collect_map_Inr:
  assumes "\<And>x. x \<in> set xs \<Longrightarrow> f x = Inr (h x)"
  shows "collect (map f xs) = Inr (map h xs)"
  using assms by (induction xs) simp_all

lemma length_py_ljust:
  "int (length l) \<le> w \<Longrightarrow> length (py_ljust l w) = nat w"
  by (simp add: py_ljust_def)

lemma py_ljust_long: "w \<le> int (length l) \<Longrightarrow> py_ljust l w = l"
  by (simp add: py_ljust_def)

lemma length_py_ljust_ge: "w \<le> int (length (py_ljust l w))"
  by (simp add: py_ljust_def)

lemma line_cuts_chunk_list:
  assumes "3 \<le> cols" and "cols < int (length line)"
  shows "line_cuts cols line = Inr (take (nat cols) line # chunk_list (nat cols) line)"
  using line_cuts_chunks [OF assms] by (simp add: chunk_list_def)

lemma chunk_list_props:
  assumes "3 \<le> c" and "c < length line"
  shows "chunk_list c line \<noteq> []"
    and "concat (chunk_list c line) = drop c line"
    and "list_all (\<lambda>x. 0 < length x \<and> length x \<le> c - 2) (chunk_list c line)"
    and "length (chunk_list c line) = n_chunks c (length line)"
proof -
  from n_chunks_pos [OF assms] show "chunk_list c line \<noteq> []"
    by (simp add: chunk_list_def)
  have "concat (chunk_list c line) = take (n_chunks c (length line) * (c - 2)) (drop c line)"
    unfolding chunk_list_def by (rule concat_chunks)
  also have "\<dots> = drop c line"
    using n_chunks_cover [OF assms] by simp
  finally show "concat (chunk_list c line) = drop c line" .
  show "list_all (\<lambda>x. 0 < length x \<and> length x \<le> c - 2) (chunk_list c line)"
    unfolding chunk_list_def list_all_iff
  proof
    fix x assume "x \<in> set (map (\<lambda>k. take (c - 2) (drop (c + k * (c - 2)) line))
        [0..<n_chunks c (length line)])"
    then obtain k where k: "k < n_chunks c (length line)"
      and x: "x = take (c - 2) (drop (c + k * (c - 2)) line)" by auto
    from n_chunks_last [OF assms k] assms(1) show "0 < length x \<and> length x \<le> c - 2"
      by (simp add: x)
  qed
  show "length (chunk_list c line) = n_chunks c (length line)"
    by (simp add: chunk_list_def)
qed

lemma line_parts_chunk_list:
  assumes "3 \<le> cols" and "cols < int (length line)"
  shows "line_parts g cols line =
     Inr (take (nat cols) line # map (\<lambda>c. cut_prefix g @ c) (chunk_list (nat cols) line))"
  by (simp add: line_parts_def line_cuts_chunk_list [OF assms])

lemma borders_bordered:
  assumes "t \<noteq> []"
  shows "borders g t = Inr (bordered g t)"
proof -
  define b where "b = low g (py_replace (hd t) ''-'' hr_sep)"
  have upd: "((t[0 := b])[length t - 1 := b]) ! i = (if i = 0 \<or> Suc i = length t then b else t ! i)"
    if "i < length t" for i
  proof (cases "Suc i = length t")
    case True
    then have "length t - 1 = i" by simp
    moreover have "i < length (t[0 := b])" using that by simp
    ultimately have "((t[0 := b])[length t - 1 := b]) ! i = b" by (simp only: nth_list_update_eq)
    with True show ?thesis by simp
  next
    case False
    then have "length t - 1 \<noteq> i" using that by simp
    then have 1: "((t[0 := b])[length t - 1 := b]) ! i = (t[0 := b]) ! i"
      by (rule nth_list_update_neq)
    show ?thesis
    proof (cases "i = 0")
      case True
      have "0 < length t" using assms by simp
      then have "(t[0 := b]) ! 0 = b" by (rule nth_list_update_eq)
      with 1 True show ?thesis by simp
    next
      case i0: False
      then have "0 \<noteq> i" by simp
      then have "(t[0 := b]) ! i = t ! i" by (rule nth_list_update_neq)
      with 1 i0 False show ?thesis by simp
    qed
  qed
  have "(t[0 := b])[length t - 1 := b] = bordered g t"
  proof (rule nth_equalityI)
    show "length ((t[0 := b])[length t - 1 := b]) = length (bordered g t)"
      by (simp add: bordered_def)
  next
    fix i assume "i < length ((t[0 := b])[length t - 1 := b])"
    then have i: "i < length t" by simp
    show "((t[0 := b])[length t - 1 := b]) ! i = bordered g t ! i"
      using i by (simp only: upd [OF i]) (simp add: bordered_def b_def)
  qed
  moreover have "borders g t = Inr ((t[0 := b])[length t - 1 := b])"
    using assms by (cases t) (simp_all add: borders_def Let_def b_def)
  ultimately show ?thesis by simp
qed

lemma length_bordered [simp]: "length (bordered g rows) = length rows"
  by (simp add: bordered_def)

lemma framed_update:
  "framed g rows = (bordered g rows)[1 := col g (bordered g rows ! 1) (H3 g) False]"
proof (rule nth_equalityI)
  show "length (framed g rows) = length ((bordered g rows)[1 := col g (bordered g rows ! 1) (H3 g) False])"
    by (simp add: framed_def)
next
  fix i assume "i < length (framed g rows)"
  then have i: "i < length rows" by (simp add: framed_def)
  show "framed g rows ! i = (bordered g rows)[1 := col g (bordered g rows ! 1) (H3 g) False] ! i"
    using i by (cases "i = 1") (simp_all add: framed_def)
qed

lemma block_text_framed:
  assumes "2 \<le> length ts" and "\<And>lb. lb \<in> set ts \<Longrightarrow> n < length lb"
  shows "block_text g ts n = Inr (py_join nl (framed g (map (\<lambda>lb. lb ! n) ts)))"
proof -
  have br: "block_rows ts n = Inr (map (\<lambda>lb. lb ! n) ts)"
    using assms(2) by (simp add: block_rows_def list_all_iff)
  have ne: "map (\<lambda>lb. lb ! n) ts \<noteq> []" using assms(1) by auto
  have len: "\<not> length (bordered g (map (\<lambda>lb. lb ! n) ts)) < 2" using assms(1) by simp
  show ?thesis
    unfolding block_text_def br sum.case borders_bordered [OF ne] framed_update
    using len by (simp only: if_False)
qed

lemma parts_nth:
  assumes "n < Suc (length (chunk_list c line))"
  shows "(take c line # map (\<lambda>x. cut_prefix g @ x) (chunk_list c line)) ! n = shown_range g c n line"
proof (cases n)
  case 0
  then show ?thesis by (simp add: shown_range_def column_range_def)
next
  case (Suc k)
  with assms have k: "k < length (chunk_list c line)" by simp
  then have "k < n_chunks c (length line)" by (simp add: chunk_list_def)
  then have "chunk_list c line ! k = take (c - 2) (drop (c + k * (c - 2)) line)"
    by (simp add: chunk_list_def)
  then show ?thesis using k Suc by (simp add: shown_range_def column_range_def)
qed

lemma column_ranges_chunks:
  "map (\<lambda>n. column_range c n line) [0..<Suc (n_chunks c (length line))]
     = take c line # chunk_list c line"
proof -
  have "map (\<lambda>n. column_range c n line) [0..<Suc k]
      = take c line # map (\<lambda>j. take (c - 2) (drop (c + j * (c - 2)) line)) [0..<k]" for k
  proof (induction k)
    case 0
    then show ?case by (simp add: column_range_def)
  next
    case (Suc k)
    have "map (\<lambda>n. column_range c n line) [0..<Suc (Suc k)]
        = map (\<lambda>n. column_range c n line) [0..<Suc k] @ [column_range c (Suc k) line]"
      by simp
    then show ?case using Suc by (simp add: column_range_def)
  qed
  then show ?thesis by (simp add: chunk_list_def)
qed

lemma table_fits:
  assumes "int (length (fst (py_split1 nl tbl))) \<le> cols" and "py_splitlines tbl \<noteq> []"
  shows "table_out g cols hir tbl table out
     = Inr (out @ map (\<lambda>line. py_repeat left_indent hir @ line) (bordered g (py_splitlines tbl)))"
  using assms by (simp add: table_out_def borders_bordered)

lemma block_list_framed:
  assumes "3 \<le> cols" and "cols < w"
    and "2 \<le> length (py_splitlines text)"
    and "list_all (\<lambda>l. int (length l) \<le> w) (py_splitlines text)"
  shows "block_list g text w cols =
     Inr (map (\<lambda>n. py_join nl (framed g
                 (map (\<lambda>l. shown_range g (nat cols) n (py_ljust l w)) (py_splitlines text))))
            [0..<Suc (n_chunks (nat cols) (nat w))])"
proof -
  define ls where "ls = py_splitlines text"
  define c where "c = nat cols"
  define N where "N = Suc (n_chunks c (nat w))"
  define parts where
    "parts = (\<lambda>l. take c (py_ljust l w) # map (\<lambda>x. cut_prefix g @ x) (chunk_list c (py_ljust l w)))"
  have len: "length (py_ljust l w) = nat w" if "l \<in> set ls" for l
    using that assms(4) by (simp add: ls_def list_all_iff length_py_ljust)
  have lp: "line_parts g cols (py_ljust l w) = Inr (parts l)" if "l \<in> set ls" for l
  proof -
    have "cols < int (length (py_ljust l w))" using len [OF that] assms(1,2) by simp
    from line_parts_chunk_list [OF assms(1) this] show ?thesis by (simp add: parts_def c_def)
  qed
  have clen: "length (chunk_list c (py_ljust l w)) = n_chunks c (nat w)" if "l \<in> set ls" for l
    by (simp add: chunk_list_def len [OF that])
  have plen: "length (parts l) = N" if "l \<in> set ls" for l
    by (simp add: parts_def clen [OF that] N_def)
  have pn: "parts l ! n = shown_range g c n (py_ljust l w)" if "l \<in> set ls" and "n < N" for l n
    unfolding parts_def using that(2) by (intro parts_nth) (simp add: clen [OF that(1)] N_def)
  have sp: "split_parts g text w cols = Inr (map parts ls)"
    unfolding split_parts_def ls_def [symmetric] using lp by (rule collect_map_Inr)
  from assms(3) obtain l0 l1 rest where ls: "ls = l0 # l1 # rest"
    by (cases ls; cases "tl ls") (auto simp add: ls_def)
  define ts where "ts = map parts ls"
  have ts2: "2 \<le> length ts" by (simp add: ts_def ls)
  define h where
    "h = (\<lambda>n. py_join nl (framed g (map (\<lambda>l. shown_range g c n (py_ljust l w)) ls)))"
  have bh: "block_text g ts n = Inr (h n)" if "n \<in> set [0..<N]" for n
  proof -
    from that have n: "n < N" by simp
    have "\<And>lb. lb \<in> set ts \<Longrightarrow> n < length lb" using plen n by (auto simp add: ts_def)
    with ts2 have "block_text g ts n = Inr (py_join nl (framed g (map (\<lambda>lb. lb ! n) ts)))"
      by (rule block_text_framed)
    moreover have "map (\<lambda>lb. lb ! n) ts = map (\<lambda>l. shown_range g c n (py_ljust l w)) ls"
      unfolding ts_def map_map o_def by (rule map_cong) (simp_all add: pn n)
    ultimately show ?thesis by (simp add: h_def)
  qed
  have "collect (map (block_text g ts) [0..<N]) = Inr (map h [0..<N])"
    using bh by (rule collect_map_Inr)
  moreover have "length (parts l0) = N" using plen [of l0] by (simp add: ls)
  ultimately have "block_list g text w cols = Inr (map h [0..<N])"
    by (simp add: block_list_def sp ls ts_def)
  then show ?thesis by (simp only: h_def N_def c_def ls_def)
qed

lemma column_ranges_line:
  assumes "3 \<le> c" and "c < length line"
  shows "concat (map (\<lambda>n. column_range c n line) [0..<Suc (n_chunks c (length line))]) = line"
    and "length (column_range c 0 line) = c"
    and "\<forall>n\<in>{1..<Suc (n_chunks c (length line))}.
           0 < length (column_range c n line) \<and> length (column_range c n line) \<le> c - 2"
proof -
  note p = chunk_list_props [OF assms]
  show "concat (map (\<lambda>n. column_range c n line) [0..<Suc (n_chunks c (length line))]) = line"
    unfolding column_ranges_chunks by (simp add: p(2))
  show "length (column_range c 0 line) = c" using assms(2) by (simp add: column_range_def)
  show "\<forall>n\<in>{1..<Suc (n_chunks c (length line))}.
           0 < length (column_range c n line) \<and> length (column_range c n line) \<le> c - 2"
  proof
    fix n assume "n \<in> {1..<Suc (n_chunks c (length line))}"
    then obtain k where k: "n = Suc k" "k < n_chunks c (length line)" by (cases n) auto
    from n_chunks_last [OF assms k(2)] assms(1)
    show "0 < length (column_range c n line) \<and> length (column_range c n line) \<le> c - 2"
      by (simp add: column_range_def k(1))
  qed
qed

text \<open>
  C2, as amended. \<open>w\<close> is the width of the first line of the tabulated table. When
  \<open>w\<close> is at most the terminal columns, the table is appended line by line, never
  split, every line behind the indentation of the hierarchy level (the first and the
  last line being the border). When \<open>w\<close> exceeds the terminal columns and these are at
  least 3, a plain-text table of two or more lines, none wider than \<open>w\<close>, is rendered
  as \<open>N\<close> blocks, \<open>N\<close> being two or more: block number \<open>n\<close> holds, for every line of
  the table in order, column range number \<open>n\<close> of the line padded with spaces to the
  width \<open>w\<close>, behind the continuation glyph when \<open>n\<close> is not 0 (and the block is framed:
  border rows first and last, the second row in colour). The first column range of a
  line has the full column width, the others at most columns - 2 characters and at
  least one; and the \<open>N\<close> column ranges of a line, in order, are the padded line
  exactly.
\<close>

theorem table_split:
  assumes "w = int (length (fst (py_split1 nl tbl)))"
    and "lines = py_splitlines table"
    and "N = Suc (n_chunks (nat cols) (nat w))"
  shows "(w \<le> cols \<and> py_splitlines tbl \<noteq> [] \<longrightarrow>
           table_out g cols hir tbl table out
             = Inr (out @ map (\<lambda>line. py_repeat left_indent hir @ line)
                            (bordered g (py_splitlines tbl))))
       \<and> (cols < w \<and> 3 \<le> cols \<and> 2 \<le> length lines
            \<and> list_all (\<lambda>l. int (length l) \<le> w) lines \<longrightarrow>
           table_out g cols hir tbl table out
             = Inr (out @ [nl @ py_join nl
                 (map (\<lambda>n. py_join nl (framed g
                         (map (\<lambda>l. shown_range g (nat cols) n (py_ljust l w)) lines)))
                    [0..<N]) @ nl])
           \<and> 2 \<le> N
           \<and> (\<forall>l\<in>set lines.
                 concat (map (\<lambda>n. column_range (nat cols) n (py_ljust l w)) [0..<N]) = py_ljust l w
                 \<and> length (column_range (nat cols) 0 (py_ljust l w)) = nat cols
                 \<and> (\<forall>n\<in>{1..<N}. 0 < length (column_range (nat cols) n (py_ljust l w))
                        \<and> length (column_range (nat cols) n (py_ljust l w)) \<le> nat cols - 2)))"
proof (intro conjI impI)
  assume "w \<le> cols \<and> py_splitlines tbl \<noteq> []"
  then show "table_out g cols hir tbl table out
             = Inr (out @ map (\<lambda>line. py_repeat left_indent hir @ line)
                            (bordered g (py_splitlines tbl)))"
    using table_fits [of tbl cols g hir table out] assms(1) by simp
next
  assume a: "cols < w \<and> 3 \<le> cols \<and> 2 \<le> length lines
            \<and> list_all (\<lambda>l. int (length l) \<le> w) lines"
  then have b: "3 \<le> cols" "cols < w" "2 \<le> length (py_splitlines table)"
    "list_all (\<lambda>l. int (length l) \<le> w) (py_splitlines table)"
    by (simp_all add: assms(2))
  have "\<not> int (length (fst (py_split1 nl tbl))) \<le> cols" using b(2) assms(1) by simp
  then show "table_out g cols hir tbl table out
             = Inr (out @ [nl @ py_join nl
                 (map (\<lambda>n. py_join nl (framed g
                         (map (\<lambda>l. shown_range g (nat cols) n (py_ljust l w)) lines)))
                    [0..<N]) @ nl])"
    unfolding assms(2,3)
    by (simp add: table_out_def split_blocks_def Let_def assms(1) [symmetric]
        block_list_framed [OF b])
next
  assume a: "cols < w \<and> 3 \<le> cols \<and> 2 \<le> length lines
            \<and> list_all (\<lambda>l. int (length l) \<le> w) lines"
  then have "3 \<le> nat cols" "nat cols < nat w" by auto
  then have "0 < n_chunks (nat cols) (nat w)" by (rule n_chunks_pos)
  then show "2 \<le> N" by (simp add: assms(3))
next
  assume a: "cols < w \<and> 3 \<le> cols \<and> 2 \<le> length lines
            \<and> list_all (\<lambda>l. int (length l) \<le> w) lines"
  show "\<forall>l\<in>set lines.
                 concat (map (\<lambda>n. column_range (nat cols) n (py_ljust l w)) [0..<N]) = py_ljust l w
                 \<and> length (column_range (nat cols) 0 (py_ljust l w)) = nat cols
                 \<and> (\<forall>n\<in>{1..<N}. 0 < length (column_range (nat cols) n (py_ljust l w))
                        \<and> length (column_range (nat cols) n (py_ljust l w)) \<le> nat cols - 2)"
  proof
    fix l assume "l \<in> set lines"
    with a have "int (length l) \<le> w" by (simp add: list_all_iff)
    then have len: "length (py_ljust l w) = nat w" by (rule length_py_ljust)
    have c3: "3 \<le> nat cols" and cl: "nat cols < length (py_ljust l w)" using a len by auto
    have N: "N = Suc (n_chunks (nat cols) (length (py_ljust l w)))" by (simp add: assms(3) len)
    from column_ranges_line [OF c3 cl]
    show "concat (map (\<lambda>n. column_range (nat cols) n (py_ljust l w)) [0..<N]) = py_ljust l w
                 \<and> length (column_range (nat cols) 0 (py_ljust l w)) = nat cols
                 \<and> (\<forall>n\<in>{1..<N}. 0 < length (column_range (nat cols) n (py_ljust l w))
                        \<and> length (column_range (nat cols) n (py_ljust l w)) \<le> nat cols - 2)"
      unfolding N by (intro conjI)
  qed
qed

lemma demo_table_facts:
  "9 = int (length (fst (py_split1 nl demo_table)))"
  "py_splitlines demo_table \<noteq> []"
  "2 \<le> length (py_splitlines demo_table)"
  "list_all (\<lambda>l. int (length l) \<le> 9) (py_splitlines demo_table)"
  "''c  d'' \<in> set (py_splitlines demo_table)"
  "3 = Suc (n_chunks (nat 5) (nat 9))"
  by code_simp+

theorem table_split_witness:
  "table_out default_globals 80 2 demo_table demo_table []
     = Inr (map (\<lambda>line. py_repeat left_indent 2 @ line)
              (bordered default_globals (py_splitlines demo_table)))
   \<and> table_out default_globals 5 2 demo_table demo_table []
     = Inr [nl @ py_join nl
              (map (\<lambda>n. py_join nl (framed default_globals
                      (map (\<lambda>l. shown_range default_globals (nat 5) n (py_ljust l 9))
                         (py_splitlines demo_table))))
                 [0..<3]) @ nl]
   \<and> concat (map (\<lambda>n. column_range (nat 5) n (py_ljust ''c  d'' 9)) [0..<3]) = py_ljust ''c  d'' 9"
proof -
  note f = demo_table_facts
  have 1: "table_out default_globals 80 2 demo_table demo_table []
     = Inr (map (\<lambda>line. py_repeat left_indent 2 @ line)
              (bordered default_globals (py_splitlines demo_table)))"
    using table_split [where w = 9 and tbl = demo_table and table = demo_table and cols = 80
        and g = default_globals and hir = 2 and out = "[]", OF f(1) refl refl] f(2)
    by simp
  have h: "(5 :: int) < 9 \<and> (3 :: int) \<le> 5 \<and> 2 \<le> length (py_splitlines demo_table)
      \<and> list_all (\<lambda>l. int (length l) \<le> 9) (py_splitlines demo_table)"
    using f(3,4) by simp
  note t = table_split [where w = 9 and tbl = demo_table and table = demo_table and cols = 5
        and g = default_globals and hir = 2 and out = "[]" and N = 3, OF f(1) refl f(6),
        THEN conjunct2, rule_format, OF h]
  have 2: "table_out default_globals 5 2 demo_table demo_table []
     = Inr [nl @ py_join nl
              (map (\<lambda>n. py_join nl (framed default_globals
                      (map (\<lambda>l. shown_range default_globals (nat 5) n (py_ljust l 9))
                         (py_splitlines demo_table))))
                 [0..<3]) @ nl]"
    using t by simp
  have 3: "concat (map (\<lambda>n. column_range (nat 5) n (py_ljust ''c  d'' 9)) [0..<3]) = py_ljust ''c  d'' 9"
    using t f(5) by blast
  from 1 2 3 show ?thesis by (intro conjI)
qed

text \<open>
  With 2 terminal columns the step of the range is zero and \<^verbatim>\<open>split_blocks\<close> raises; with
  1 column the table becomes a single block; and a line shorter than \<open>w\<close> comes back
  padded, not as it was.
\<close>

theorem table_split_counterexample:
  "split_blocks default_globals demo_table 9 2 = Inl ValueError
   \<and> map_sum id length (block_list default_globals demo_table 9 1) = Inr 1
   \<and> line_cuts 5 (py_ljust ''c  d'' 9) = Inr [''c  d '', ''   '', '' '']
   \<and> concat [''c  d '', ''   '', '' ''] \<noteq> ''c  d''"
  by code_simp

section \<open>Properties of the wrapping\<close>

lemma printable_append [simp]: "printable (a @ b) = printable a @ printable b"
  by (simp add: printable_def)

lemma printable_Nil [simp]: "printable [] = []"
  by (simp add: printable_def)

lemma printable_concat: "printable (concat xs) = concat (map printable xs)"
  by (induction xs) simp_all

lemma printable_spaces: "list_all is_space s \<Longrightarrow> printable s = []"
  by (induction s) (simp_all add: printable_def)

lemma printable_dropWhile: "printable (dropWhile is_space s) = printable s"
  by (induction s) (simp_all add: printable_def)

lemma printable_rev: "printable (rev s) = rev (printable s)"
  by (simp add: printable_def rev_filter)

lemma printable_strip: "printable (py_strip s) = printable s"
  by (simp add: py_strip_def printable_rev printable_dropWhile)

lemma dropWhile_all: "dropWhile P s = [] \<Longrightarrow> list_all P s"
  by (induction s) (simp_all split: if_splits)

lemma strip_empty_spaces:
  assumes "py_strip c = []"
  shows "printable c = []"
proof -
  from assms have "printable (py_strip c) = []" by simp
  then show ?thesis by (simp add: printable_strip)
qed

lemma take_fitting_bound:
  "take_fitting width n chunks = (cur, rest) \<Longrightarrow> n \<le> width \<Longrightarrow> n + length (concat cur) \<le> width"
proof (induction chunks arbitrary: n cur rest)
  case Nil
  then show ?case by simp
next
  case (Cons c cs)
  show ?case
  proof (cases "n + length c \<le> width")
    case True
    obtain l r where lr: "take_fitting width (n + length c) cs = (l, r)"
      by (cases "take_fitting width (n + length c) cs")
    from Cons.IH [OF lr True] Cons.prems(1) True lr show ?thesis by auto
  next
    case False
    with Cons.prems show ?thesis by simp
  qed
qed

lemma wrap_line_length:
  assumes "0 < width"
  shows "length (concat (fst (wrap_line width started chunks))) \<le> width"
proof -
  define chunks1 where "chunks1 = (case chunks of
                       [] \<Rightarrow> []
                     | c # cs \<Rightarrow> if py_strip c = [] \<and> started then cs else chunks)"
  obtain cur rest where tf: "take_fitting width 0 chunks1 = (cur, rest)"
    by (cases "take_fitting width 0 chunks1")
  obtain cur2 rest2 where hl: "handle_long_word width cur rest = (cur2, rest2)"
    by (cases "handle_long_word width cur rest")
  from take_fitting_bound [OF tf] have b: "length (concat cur) \<le> width" by simp
  have b2: "length (concat cur2) \<le> width"
    using hl b assms by (auto simp add: handle_long_word_def Let_def split: list.splits if_splits)
  have "length (concat (butlast cur2)) \<le> length (concat cur2)"
    by (cases cur2 rule: rev_cases) simp_all
  with b2 have "length (concat (if cur2 \<noteq> [] \<and> py_strip (last cur2) = [] then butlast cur2 else cur2)) \<le> width"
    by simp
  then show ?thesis
    by (simp add: wrap_line_def chunks1_def [symmetric] tf hl)
qed

lemma wrap_line_printable:
  "printable (concat (fst (wrap_line width started chunks)))
     @ printable (concat (snd (wrap_line width started chunks))) = printable (concat chunks)"
proof -
  define chunks1 where "chunks1 = (case chunks of
                       [] \<Rightarrow> []
                     | c # cs \<Rightarrow> if py_strip c = [] \<and> started then cs else chunks)"
  obtain cur rest where tf: "take_fitting width 0 chunks1 = (cur, rest)"
    by (cases "take_fitting width 0 chunks1")
  obtain cur2 rest2 where hl: "handle_long_word width cur rest = (cur2, rest2)"
    by (cases "handle_long_word width cur rest")
  have p1: "printable (concat chunks1) = printable (concat chunks)"
    by (cases chunks) (simp_all add: chunks1_def strip_empty_spaces)
  have p2: "concat chunks1 = concat cur @ concat rest"
    using take_fitting_concat [OF tf] by simp
  have p3: "concat cur2 @ concat rest2 = concat cur @ concat rest"
    using hl by (auto simp add: handle_long_word_def Let_def split: list.splits if_splits)
  have p4: "printable (concat (if cur2 \<noteq> [] \<and> py_strip (last cur2) = [] then butlast cur2 else cur2))
      = printable (concat cur2)"
  proof (cases "cur2 \<noteq> [] \<and> py_strip (last cur2) = []")
    case True
    then obtain xs x where x: "cur2 = xs @ [x]" "py_strip x = []" by (cases cur2 rule: rev_cases) auto
    then show ?thesis by (simp add: strip_empty_spaces)
  next
    case False
    then show ?thesis by auto
  qed
  have "printable (concat cur2) @ printable (concat rest2) = printable (concat chunks)"
    using p1 p2 p3 by (metis printable_append)
  then show ?thesis
    by (simp add: wrap_line_def chunks1_def [symmetric] tf hl p4)
qed

lemma wrap_chunks_lengths:
  "0 < width \<Longrightarrow> list_all (\<lambda>l. length l \<le> width) ls
     \<Longrightarrow> list_all (\<lambda>l. length l \<le> width) (wrap_chunks width ls chunks)"
proof (induction width ls chunks rule: wrap_chunks.induct)
  case (1 width ls chunks)
  show ?case
  proof (cases "chunks = []")
    case True
    then show ?thesis using "1.prems" by (simp add: wrap_chunks.simps)
  next
    case False
    let ?ls = "if fst (wrap_line width (ls \<noteq> []) chunks) = [] then ls
         else ls @ [concat (fst (wrap_line width (ls \<noteq> []) chunks))]"
    have "list_all (\<lambda>l. length l \<le> width) ?ls"
      using "1.prems"(2) wrap_line_length [OF "1.prems"(1), of "ls \<noteq> []" chunks] by simp
    from "1.IH" [OF False "1.prems"(1) this] show ?thesis
      using False by (subst wrap_chunks.simps) simp
  qed
qed

lemma wrap_chunks_printable:
  "concat (map printable (wrap_chunks width ls chunks))
     = concat (map printable ls) @ printable (concat chunks)"
proof (induction width ls chunks rule: wrap_chunks.induct)
  case (1 width ls chunks)
  show ?case
  proof (cases "chunks = []")
    case True
    then show ?thesis by (simp add: wrap_chunks.simps)
  next
    case False
    let ?cur = "fst (wrap_line width (ls \<noteq> []) chunks)"
    let ?rest = "snd (wrap_line width (ls \<noteq> []) chunks)"
    let ?ls = "if ?cur = [] then ls else ls @ [concat ?cur]"
    have "concat (map printable ?ls) = concat (map printable ls) @ printable (concat ?cur)"
      by simp
    moreover have "wrap_chunks width ls chunks = wrap_chunks width ?ls ?rest"
      using False by (subst wrap_chunks.simps) simp
    ultimately have "concat (map printable (wrap_chunks width ls chunks))
        = concat (map printable ls) @ printable (concat ?cur) @ printable (concat ?rest)"
      using "1.IH" [OF False] by simp
    then show ?thesis by (simp only: wrap_line_printable)
  qed
qed

lemma printable_join_nl: "printable (py_join nl ls) = concat (map printable ls)"
proof (cases ls)
  case Nil
  then show ?thesis by (simp add: py_join_def)
next
  case (Cons x xs)
  have "printable (concat (map (\<lambda>y. nl @ y) xs)) = concat (map printable xs)"
    by (induction xs) (simp_all add: nl_def printable_def is_space_def)
  then show ?thesis by (simp add: py_join_def Cons)
qed

lemma printable_expandtabs: "printable (expandtabs_from j s) = printable s"
  by (induction j s rule: expandtabs_from.induct)
     (simp_all add: printable_def is_space_def)

lemma printable_munge: "printable (munge_whitespace s) = printable s"
proof -
  have "printable (map (\<lambda>c. if is_space c then CHR 0x20 else c) x) = printable x" for x
    by (induction x) (simp_all add: printable_def is_space_def)
  then show ?thesis by (simp add: munge_whitespace_def printable_expandtabs)
qed

lemma concat_filter_nonempty: "concat (filter (\<lambda>c. c \<noteq> []) xs) = concat xs"
  by (induction xs) simp_all

lemma fill_props:
  assumes "0 < width" and "\<forall>s. concat (wsplit s) = s"
  shows "\<exists>ls. fill wsplit width text = Inr (py_join nl ls)
     \<and> list_all (\<lambda>l. length l \<le> width) ls
     \<and> printable (py_join nl ls) = printable text"
proof -
  let ?chunks = "filter (\<lambda>c. c \<noteq> []) (wsplit (munge_whitespace text))"
  let ?ls = "wrap_chunks width [] ?chunks"
  have 1: "fill wsplit width text = Inr (py_join nl ?ls)" using assms(1) by (simp add: fill_def)
  have 2: "list_all (\<lambda>l. length l \<le> width) ?ls"
    using assms(1) by (intro wrap_chunks_lengths) simp_all
  have "printable (py_join nl ?ls) = printable (concat ?chunks)"
    by (simp add: printable_join_nl wrap_chunks_printable)
  also have "\<dots> = printable (munge_whitespace text)"
    using assms(2) by (simp add: concat_filter_nonempty)
  also have "\<dots> = printable text" by (rule printable_munge)
  finally have 3: "printable (py_join nl ?ls) = printable text" .
  from 1 2 3 show ?thesis by blast
qed







































text \<open>
  What the code returns for this run: the margin of two blanks is gone, the lines are
  filled up to six characters, and \<^verbatim>\<open>well-known\<close> is cut behind its hyphen.
\<close>

lemma rewrap_demo_run:
  "rewrap wordsep_split 10 ''p'' demo_run ''  '' ''- ''
     = Inr ''hello\<newline>world\<newline>this\<newline>is a\<newline>well-\<newline>known\<newline>test''"
  by code_simp


section \<open>Properties of the rule sizer\<close>

lemma repl_single:
  "repl k [m] new s = concat (map (\<lambda>c. if c = m then new else [c]) (drop k s))"
proof (induction s arbitrary: k)
  case Nil
  then show ?case by simp
next
  case (Cons c cs)
  then show ?case by (cases k) auto
qed

lemma py_replace_single:
  "py_replace s [m] new = concat (map (\<lambda>c. if c = m then new else [c]) s)"
  by (simp add: py_replace_def repl_single)

lemma repl_skip: "repl (length xs) old new (xs @ ys) = repl 0 old new ys"
  by (induction xs) simp_all

lemma repl_no_match:
  assumes "old \<noteq> []" and "\<not> sublist old l" and "rest = [] \<or> hd rest \<notin> set old"
  shows "repl 0 old new (l @ rest) = l @ repl 0 old new rest"
  using assms(2)
proof (induction l)
  case Nil
  then show ?case by simp
next
  case (Cons c l)
  have np: "\<not> prefix old (c # l @ rest)"
  proof
    assume "prefix old (c # l @ rest)"
    then have p: "prefix old ((c # l) @ rest)" by simp
    then have "prefix old (c # l) \<or> (\<exists>us. us \<noteq> [] \<and> prefix us rest \<and> old = (c # l) @ us)"
      unfolding prefix_append by auto
    then show False
    proof
      assume "prefix old (c # l)"
      then have "sublist old (c # l)" by (rule prefix_imp_sublist)
      with Cons.prems show False by simp
    next
      assume "\<exists>us. us \<noteq> [] \<and> prefix us rest \<and> old = (c # l) @ us"
      then obtain us where us: "us \<noteq> []" "prefix us rest" "old = (c # l) @ us" by blast
      then have "rest \<noteq> []" by auto
      moreover from us have "hd rest = hd us" by (cases us; cases rest) auto
      moreover from us have "hd us \<in> set old" by (cases us) auto
      ultimately show False using assms(3) by simp
    qed
  qed
  have "\<not> sublist old l" using Cons.prems by (auto simp add: sublist_Cons_right)
  from Cons.IH [OF this] np show ?case by simp
qed

lemma repl_match:
  assumes "old \<noteq> []"
  shows "repl 0 old new (old @ rest) = new @ repl 0 old new rest"
proof -
  from assms obtain c r where o: "old = c # r" by (cases old) auto
  have "repl 0 old new (old @ rest) = new @ repl (length r) old new (r @ rest)"
    by (simp add: o)
  then show ?thesis by (simp add: repl_skip)
qed

lemma nl_tail_simps: "nl_tail [] = []" "nl_tail (l # ls) = CHR 0x0A # l @ nl_tail ls"
  by (simp_all add: nl_tail_def nl_def)

lemma py_join_nl_tail: "py_join nl (l # ls) = l @ nl_tail ls"
  by (simp add: py_join_def nl_tail_def)

lemma nl_tail_hd: "CHR 0x0A \<notin> set old \<Longrightarrow> nl_tail ls = [] \<or> hd (nl_tail ls) \<notin> set old"
  by (cases ls) (simp_all add: nl_tail_simps)

lemma repl_line:
  assumes "old \<noteq> []" and "CHR 0x0A \<notin> set old" and "sublist old l \<Longrightarrow> l = old"
  shows "repl 0 old new (l @ nl_tail ls) = (if l = old then new else l) @ repl 0 old new (nl_tail ls)"
proof (cases "l = old")
  case True
  then show ?thesis using repl_match [OF assms(1), of new "nl_tail ls"] by simp
next
  case False
  with assms(3) have "\<not> sublist old l" by auto
  from repl_no_match [OF assms(1) this nl_tail_hd [OF assms(2)]] False show ?thesis by simp
qed

lemma repl_nl_tail:
  assumes "old \<noteq> []" and "CHR 0x0A \<notin> set old"
    and "\<And>l. l \<in> set ls \<Longrightarrow> sublist old l \<Longrightarrow> l = old"
  shows "repl 0 old new (nl_tail ls) = nl_tail (map (\<lambda>l. if l = old then new else l) ls)"
  using assms(3)
proof (induction ls)
  case Nil
  then show ?case by (simp add: nl_tail_simps)
next
  case (Cons l ls)
  have "\<not> prefix old (CHR 0x0A # l @ nl_tail ls)"
    using assms(1,2) by (cases old) auto
  then have "repl 0 old new (nl_tail (l # ls)) = CHR 0x0A # repl 0 old new (l @ nl_tail ls)"
    by (simp add: nl_tail_simps)
  also have "repl 0 old new (l @ nl_tail ls)
      = (if l = old then new else l) @ repl 0 old new (nl_tail ls)"
    using assms(1,2) Cons.prems by (intro repl_line) simp_all
  also have "repl 0 old new (nl_tail ls) = nl_tail (map (\<lambda>l. if l = old then new else l) ls)"
    using Cons.IH Cons.prems by simp
  finally show ?case by (simp add: nl_tail_simps)
qed

lemma repl_join:
  assumes "old \<noteq> []" and "CHR 0x0A \<notin> set old"
    and "\<And>l. l \<in> set ls \<Longrightarrow> sublist old l \<Longrightarrow> l = old"
  shows "py_replace (py_join nl ls) old new = py_join nl (map (\<lambda>l. if l = old then new else l) ls)"
proof (cases ls)
  case Nil
  then show ?thesis using assms(1) by (simp add: py_join_def py_replace_def)
next
  case (Cons l ls')
  have "repl 0 old new (l @ nl_tail ls')
      = (if l = old then new else l) @ repl 0 old new (nl_tail ls')"
    using assms Cons by (intro repl_line) simp_all
  also have "repl 0 old new (nl_tail ls') = nl_tail (map (\<lambda>l. if l = old then new else l) ls')"
    using assms Cons by (intro repl_nl_tail) simp_all
  finally show ?thesis using assms(1) by (simp add: Cons py_join_nl_tail py_replace_def)
qed

lemma clean_ansi_length: "length (clean_ansi s) \<le> length s"
proof (induction s rule: clean_ansi.induct)
  case 1
  then show ?case by simp
next
  case (2 c cs)
  have "length (tl (dropWhile (\<lambda>x. x \<noteq> CHR ''m'') cs)) \<le> length cs"
    using length_dropWhile_le [of "\<lambda>x. x \<noteq> CHR ''m''" cs] by simp
  with 2 show ?case by (auto simp add: le_Suc_eq)
qed

lemma lines_from_line:
  "no_breaks l \<Longrightarrow> lines_from cur l = (if cur @ l = [] then [] else [cur @ l])"
proof (induction l arbitrary: cur)
  case Nil
  then show ?case by simp
next
  case (Cons c l)
  then have c: "c \<noteq> CHR 0x0A" "c \<noteq> CHR 0x0D" and l: "no_breaks l"
    by (auto simp add: no_breaks_def)
  show ?case
  proof (cases l)
    case Nil
    then show ?thesis using c by simp
  next
    case (Cons d ds)
    have "lines_from cur (c # d # ds) = lines_from (cur @ [c]) (d # ds)" using c by simp
    with Cons.IH [OF l, of "cur @ [c]"] show ?thesis by (simp add: Cons)
  qed
qed

lemma lines_from_break:
  "no_breaks l \<Longrightarrow> lines_from cur (l @ CHR 0x0A # rest) = (cur @ l) # lines_from [] rest"
proof (induction l arbitrary: cur)
  case Nil
  then show ?case by (cases rest) simp_all
next
  case (Cons c l)
  then have c: "c \<noteq> CHR 0x0A" "c \<noteq> CHR 0x0D" and l: "no_breaks l"
    by (auto simp add: no_breaks_def)
  obtain d ds where d: "l @ CHR 0x0A # rest = d # ds" by (cases l) auto
  have "lines_from cur (c # d # ds) = lines_from (cur @ [c]) (d # ds)" using c by simp
  with Cons.IH [OF l, of "cur @ [c]"] show ?case by (simp add: d [symmetric])
qed

lemma splitlines_join:
  "list_all no_breaks ls \<Longrightarrow>
     filter (\<lambda>l. l \<noteq> []) (py_splitlines (py_join nl ls)) = filter (\<lambda>l. l \<noteq> []) ls"
proof (induction ls)
  case Nil
  then show ?case by (simp add: py_splitlines_def py_join_def)
next
  case (Cons l ls)
  then have l: "no_breaks l" and r: "list_all no_breaks ls" by simp_all
  show ?case
  proof (cases ls)
    case Nil
    then show ?thesis using lines_from_line [OF l, of "[]"]
      by (simp add: py_splitlines_def py_join_def)
  next
    case (Cons l2 ls2)
    have "py_join nl (l # ls) = l @ CHR 0x0A # py_join nl ls"
      by (simp add: py_join_def Cons nl_def)
    then have "py_splitlines (py_join nl (l # ls)) = l # py_splitlines (py_join nl ls)"
      using lines_from_break [OF l, of "[]" "py_join nl ls"] by (simp add: py_splitlines_def)
    then show ?thesis using Cons.IH [OF r] by simp
  qed
qed

lemma mw_scan_nonempty: "mw_scan m xs = mw_scan m (filter (\<lambda>l. l \<noteq> []) xs)"
  by (induction xs arbitrary: m) (simp_all add: Let_def)

lemma mw_scan_max: "mw_scan m ls = max m (max_width ls)"
proof (induction ls arbitrary: m)
  case Nil
  then show ?case by (simp add: max_width_def)
next
  case (Cons l ls)
  have mw: "max_width (l # ls) = (if hr_marker \<in> set l then max_width ls
      else max (length (clean_ansi l)) (max_width ls))"
    by (simp add: max_width_def)
  show ?case
  proof (cases "hr_marker \<in> set l")
    case True
    then show ?thesis using Cons [of m] by (simp add: mw)
  next
    case False
    show ?thesis
    proof (cases "length l < m")
      case True
      with clean_ansi_length [of l] have "length (clean_ansi l) < m" by simp
      then show ?thesis using False True Cons [of m] by (simp add: mw)
    next
      case nl: False
      then show ?thesis using False Cons [of "max m (length (clean_ansi l))"] Cons [of m]
        by (auto simp add: mw Let_def max_def)
    qed
  qed
qed

lemma py_split1_marker:
  "m \<in> set s \<Longrightarrow>
     py_split1 [m] s = (takeWhile (\<lambda>c. c \<noteq> m) s, Some (tl (dropWhile (\<lambda>c. c \<noteq> m) s)))"
  by (induction s) auto

lemma hr_indent_offset:
  assumes "hr_marker \<in> set s"
  shows "hr_indent s = Inr (int (marker_offset s))"
proof -
  let ?P = "\<lambda>c. c \<noteq> hr_marker"
  have "dropWhile ?P s \<noteq> []" using assms by (simp add: dropWhile_eq_Nil_conv)
  then have "length (tl (dropWhile ?P s)) + 1 = length (dropWhile ?P s)" by (cases "dropWhile ?P s") simp_all
  moreover have "length s = length (takeWhile ?P s) + length (dropWhile ?P s)"
    by (metis length_append takeWhile_dropWhile_id)
  ultimately have "int (length s) - int (length (tl (dropWhile ?P s))) - 1 = int (length (takeWhile ?P s))"
    by simp
  then show ?thesis
    by (simp add: hr_indent_def py_split1_marker [OF assms] marker_offset_def)
qed

lemma sized_rule_replace:
  "py_replace h [hr_marker]
      (py_repeat hr_sep (min term_columns (int mw) - 2 * int (marker_offset (clean_ansi h))))
     = sized_rule term_columns mw h"
  by (simp add: py_replace_single sized_rule_def py_repeat_def)

lemma sized_rule_no_marker: "hr_marker \<notin> set (sized_rule term_columns mw l)"
  by (auto simp add: sized_rule_def hr_sep_def hr_marker_def split: if_splits)

lemma sized_rule_id: "hr_marker \<notin> set l \<Longrightarrow> sized_rule term_columns mw l = l"
proof -
  assume "hr_marker \<notin> set l"
  then have "concat (map (\<lambda>c. if c = hr_marker then x else [c]) l) = l" for x
    by (induction l) auto
  then show ?thesis by (simp add: sized_rule_def)
qed

lemma sized_rule_no_nl: "CHR 0x0A \<notin> set l \<Longrightarrow> CHR 0x0A \<notin> set (sized_rule term_columns mw l)"
  by (auto simp add: sized_rule_def hr_sep_def split: if_splits)

lemma fill_hrs_join:
  assumes "\<And>h. h \<in> set hs \<Longrightarrow> hr_marker \<in> set h \<and> CHR 0x0A \<notin> set h \<and> hr_marker \<in> set (clean_ansi h)"
    and "\<And>h l. h \<in> set hs \<Longrightarrow> l \<in> set ls \<Longrightarrow> sublist h l \<Longrightarrow> l = h"
  shows "fill_hrs term_columns mw hs (py_join nl ls)
     = Inr (py_join nl (map (\<lambda>l. if l \<in> set hs then sized_rule term_columns mw l else l) ls))"
  using assms
proof (induction hs arbitrary: ls)
  case Nil
  then show ?case by simp
next
  case (Cons h hs)
  let ?F = "\<lambda>l. if l = h then sized_rule term_columns mw h else l"
  let ?G' = "\<lambda>l. if l \<in> set hs then sized_rule term_columns mw l else l"
  have h: "hr_marker \<in> set h" "CHR 0x0A \<notin> set h" "hr_marker \<in> set (clean_ansi h)"
    using Cons.prems(1) [of h] by simp_all
  then have hne: "h \<noteq> []" by auto
  have r1: "py_replace (py_join nl ls) h (sized_rule term_columns mw h) = py_join nl (map ?F ls)"
    using hne h(2) Cons.prems(2) [of h] by (intro repl_join) simp_all
  have step: "fill_hrs term_columns mw (h # hs) (py_join nl ls)
      = fill_hrs term_columns mw hs (py_join nl (map ?F ls))"
    by (simp add: hr_indent_offset [OF h(3)] Let_def sized_rule_replace r1)
  have ih: "fill_hrs term_columns mw hs (py_join nl (map ?F ls))
      = Inr (py_join nl (map ?G' (map ?F ls)))"
  proof (rule Cons.IH)
    fix h' assume "h' \<in> set hs"
    then show "hr_marker \<in> set h' \<and> CHR 0x0A \<notin> set h' \<and> hr_marker \<in> set (clean_ansi h')"
      using Cons.prems(1) [of h'] by simp
  next
    fix h' l assume h': "h' \<in> set hs" and l: "l \<in> set (map ?F ls)" and s: "sublist h' l"
    from l obtain l0 where l0: "l0 \<in> set ls" "l = ?F l0" by auto
    show "l = h'"
    proof (cases "l0 = h")
      case True
      with l0 have "l = sized_rule term_columns mw h" by simp
      moreover have "hr_marker \<in> set h'" using Cons.prems(1) [of h'] h' by simp
      moreover have "set h' \<subseteq> set l" using s by (rule set_mono_sublist)
      ultimately show ?thesis using sized_rule_no_marker [of term_columns mw h] by auto
    next
      case False
      with l0 have "l = l0" by simp
      with Cons.prems(2) [of h' l0] h' l0 s show ?thesis by simp
    qed
  qed
  have comp: "?G' (?F l) = (if l \<in> set (h # hs) then sized_rule term_columns mw l else l)" for l
  proof (cases "l = h")
    case True
    have "sized_rule term_columns mw h \<notin> set hs"
    proof
      assume "sized_rule term_columns mw h \<in> set hs"
      from Cons.prems(1) [of "sized_rule term_columns mw h"] this
      show False using sized_rule_no_marker [of term_columns mw h] by simp
    qed
    with True show ?thesis by simp
  next
    case False
    then show ?thesis by simp
  qed
  have me: "map ?G' (map ?F ls) = map (\<lambda>l. if l \<in> set (h # hs) then sized_rule term_columns mw l else l) ls"
    by (simp only: map_map o_def comp)
  show ?case unfolding step ih me by (rule refl)
qed

lemma set_py_join: "l \<in> set ls \<Longrightarrow> set l \<subseteq> set (py_join nl ls)"
  by (cases ls) (auto simp add: py_join_def)

text \<open>
  C5, as amended. The joined text is given by its lines (texts without line break).
  When the marker of every rule line survives the stripping of escapes, and no rule
  line occurs inside another, different line, the rule sizer returns the text with every
  marker of every rule line replaced by \<open>max(0, w)\<close> rule characters, where
  \<open>w = min(term_columns, mw) - 2 * indent\<close>, \<open>mw\<close> is the largest escape-stripped
  width of the lines without marker, and \<open>indent\<close> is the escape-stripped offset of the
  first marker in the rule line; the other lines are unchanged.
\<close>

theorem set_hr_widths_sizes:
  assumes "list_all no_breaks ls"
    and "\<forall>l\<in>set ls. hr_marker \<in> set l \<longrightarrow> hr_marker \<in> set (clean_ansi l)"
    and "\<forall>h\<in>set ls. \<forall>l\<in>set ls. hr_marker \<in> set h \<and> sublist h l \<longrightarrow> l = h"
  shows "set_hr_widths term_columns (py_join nl ls)
     = Inr (py_join nl (map (sized_rule term_columns (max_width ls)) ls))"
proof (cases "hr_marker \<in> set (py_join nl ls)")
  case False
  then have "\<And>l. l \<in> set ls \<Longrightarrow> hr_marker \<notin> set l" using set_py_join by blast
  then have "map (sized_rule term_columns (max_width ls)) ls = ls"
    by (simp add: sized_rule_id map_idI)
  with False show ?thesis by (simp add: set_hr_widths_def)
next
  case True
  let ?ls' = "py_splitlines (py_join nl ls)"
  let ?hs = "filter (\<lambda>l. hr_marker \<in> set l) ls"
  have ne: "filter (\<lambda>l. l \<noteq> []) ?ls' = filter (\<lambda>l. l \<noteq> []) ls"
    using assms(1) by (rule splitlines_join)
  have ff: "filter (\<lambda>l. hr_marker \<in> set l) xs
      = filter (\<lambda>l. hr_marker \<in> set l) (filter (\<lambda>l. l \<noteq> []) xs)" for xs
    by (induction xs) auto
  have hs: "filter (\<lambda>l. hr_marker \<in> set l) ?ls' = ?hs"
    using ff [of ?ls'] ff [of ls] ne by simp
  have "mw_scan 0 ?ls' = mw_scan 0 (filter (\<lambda>l. l \<noteq> []) ls)"
    using mw_scan_nonempty [of 0 ?ls'] ne by simp
  then have mw: "mw_scan 0 ?ls' = max_width ls"
    using mw_scan_nonempty [of 0 ls] by (simp add: mw_scan_max)
  have f: "fill_hrs term_columns (max_width ls) ?hs (py_join nl ls)
     = Inr (py_join nl (map (\<lambda>l. if l \<in> set ?hs then sized_rule term_columns (max_width ls) l else l) ls))"
  proof (rule fill_hrs_join)
    fix h assume "h \<in> set ?hs"
    then have h: "h \<in> set ls" "hr_marker \<in> set h" by simp_all
    with assms(1) have "no_breaks h" by (simp add: list_all_iff)
    with h assms(2) show "hr_marker \<in> set h \<and> CHR 0x0A \<notin> set h \<and> hr_marker \<in> set (clean_ansi h)"
      by (simp add: no_breaks_def)
  next
    fix h l assume "h \<in> set ?hs" and "l \<in> set ls" and "sublist h l"
    with assms(3) show "l = h" by simp
  qed
  have me: "map (\<lambda>l. if l \<in> set ?hs then sized_rule term_columns (max_width ls) l else l) ls
      = map (sized_rule term_columns (max_width ls)) ls"
    by (rule map_cong) (simp_all add: sized_rule_id)
  have "fill_hrs term_columns (max_width ls) ?hs (py_join nl ls)
     = Inr (py_join nl (map (sized_rule term_columns (max_width ls)) ls))"
    unfolding f me by (rule refl)
  then show ?thesis using True by (simp add: set_hr_widths_def Let_def hs mw)
qed

theorem set_hr_widths_sizes_witness:
  "set_hr_widths 80 (py_join nl demo_rule_text)
     = Inr (py_join nl [''abcdefghijkl'', ''  '' @ concat (replicate 8 hr_sep) @ ''x''])"
proof -
  have 1: "list_all no_breaks demo_rule_text" by code_simp
  have 2: "\<forall>l\<in>set demo_rule_text. hr_marker \<in> set l \<longrightarrow> hr_marker \<in> set (clean_ansi l)"
    by code_simp
  have 3: "\<forall>h\<in>set demo_rule_text. \<forall>l\<in>set demo_rule_text. hr_marker \<in> set h \<and> sublist h l \<longrightarrow> l = h"
    by code_simp
  have 4: "map (sized_rule 80 (max_width demo_rule_text)) demo_rule_text
      = [''abcdefghijkl'', ''  '' @ concat (replicate 8 hr_sep) @ ''x'']"
    by code_simp
  from set_hr_widths_sizes [OF 1 2 3, of 80] show ?thesis unfolding 4 .
qed

text \<open>
  Two failures of the claim as it stands. With a text of width 2 and a rule indented by
  2 the width \<open>w\<close> is -2, and no rule character is written. And when a rule line is
  part of another rule line, both get the width of the first: the second rule below is
  indented by 1 and is 10 wide, not 8. A marker inside an escape sequence is stripped
  with it, and the split that looks for it raises.
\<close>

theorem set_hr_widths_counterexample:
  "set_hr_widths 80 (py_join nl [''ab'', ''  '' @ [hr_marker] @ ''x''])
     = Inr (py_join nl [''ab'', ''  x''])
   \<and> min 80 (int (max_width [''ab'', ''  '' @ [hr_marker] @ ''x'']))
       - 2 * int (marker_offset (clean_ansi (''  '' @ [hr_marker] @ ''x''))) = - 2
   \<and> set_hr_widths 80 (py_join nl [''abcdefghij'', [hr_marker], '' '' @ [hr_marker]])
     = Inr (py_join nl [''abcdefghij'', concat (replicate 10 hr_sep),
                        '' '' @ concat (replicate 10 hr_sep)])
   \<and> min 80 (int (max_width [''abcdefghij'', [hr_marker], '' '' @ [hr_marker]]))
       - 2 * int (marker_offset (clean_ansi ('' '' @ [hr_marker]))) = 8
   \<and> set_hr_widths 80 [CHR 0x1B, hr_marker, CHR ''m''] = Inl IndexError"
  by code_simp

end
